theory Spec2Isabelle
  imports Complex_Main "HOL-Library.Log_Nat" "HOL-Library.Word"
begin

section \<open>Binary64 floating-point values\<close>

text \<open>
  The program computes with C++ \<^verbatim>\<open>double\<close>. A value is a finite rational, an infinity or
  NaN; every arithmetic operation computes the exact result and rounds it to the nearest
  binary64 value, ties to even (the default rounding mode, with each operation rounded
  on its own). The two zeros of binary64 are identified: they compare equal, and the
  program could only tell them apart through the sign of a quotient by zero.
\<close>

datatype double = Fin rat | PInf | NInf | NaN

type_synonym int32 = "32 word"

definition ilog2 :: "rat \<Rightarrow> int" where
  "ilog2 x = (let (a, b) = quotient_of x; d = bitlen a - bitlen b
              in if 2 powi d \<le> x then d else d - 1)"

definition round_even :: "rat \<Rightarrow> int" where
  "round_even x = (let f = \<lfloor>x\<rfloor>; r = x - of_int f
     in if r < 1/2 then f else if 1/2 < r then f + 1 else if even f then f else f + 1)"

definition quantum :: "rat \<Rightarrow> int" where
  "quantum x = max (ilog2 \<bar>x\<bar> - 52) (- 1074)"

definition fl :: "rat \<Rightarrow> double" where
  "fl x = (if x = 0 then Fin 0
     else let e = quantum x; y = of_int (round_even (x / 2 powi e)) * 2 powi e
          in if 1024 \<le> ilog2 \<bar>y\<bar> then (if 0 < x then PInf else NInf) else Fin y)"

fun dlt :: "double \<Rightarrow> double \<Rightarrow> bool" where
  "dlt (Fin x) (Fin y) = (x < y)"
| "dlt (Fin x) PInf = True"
| "dlt NInf (Fin y) = True"
| "dlt NInf PInf = True"
| "dlt _ _ = False"

definition dle :: "double \<Rightarrow> double \<Rightarrow> bool" where
  "dle a b = (dlt a b \<or> (a = b \<and> a \<noteq> NaN))"

definition dgt :: "double \<Rightarrow> double \<Rightarrow> bool" where
  "dgt a b = dlt b a"

definition dge :: "double \<Rightarrow> double \<Rightarrow> bool" where
  "dge a b = dle b a"

fun dneg :: "double \<Rightarrow> double" where
  "dneg (Fin x) = Fin (- x)"
| "dneg PInf = NInf"
| "dneg NInf = PInf"
| "dneg NaN = NaN"

fun dadd :: "double \<Rightarrow> double \<Rightarrow> double" where
  "dadd (Fin x) (Fin y) = fl (x + y)"
| "dadd NaN _ = NaN"
| "dadd _ NaN = NaN"
| "dadd PInf NInf = NaN"
| "dadd NInf PInf = NaN"
| "dadd PInf _ = PInf"
| "dadd _ PInf = PInf"
| "dadd NInf _ = NInf"
| "dadd _ NInf = NInf"

definition dsub :: "double \<Rightarrow> double \<Rightarrow> double" where
  "dsub a b = dadd a (dneg b)"

fun dsgn :: "double \<Rightarrow> int" where
  "dsgn (Fin x) = (if x = 0 then 0 else if 0 < x then 1 else - 1)"
| "dsgn PInf = 1"
| "dsgn NInf = - 1"
| "dsgn NaN = 0"

fun dmul :: "double \<Rightarrow> double \<Rightarrow> double" where
  "dmul (Fin x) (Fin y) = fl (x * y)"
| "dmul a b = (if dsgn a * dsgn b = 0 then NaN
               else if 0 < dsgn a * dsgn b then PInf else NInf)"

fun ddiv :: "double \<Rightarrow> double \<Rightarrow> double" where
  "ddiv (Fin x) (Fin y) =
     (if y = 0 then (if x = 0 then NaN else if 0 < x then PInf else NInf)
      else fl (x / y))"
| "ddiv (Fin x) PInf = Fin 0"
| "ddiv (Fin x) NInf = Fin 0"
| "ddiv PInf (Fin y) = (if 0 \<le> y then PInf else NInf)"
| "ddiv NInf (Fin y) = (if 0 \<le> y then NInf else PInf)"
| "ddiv _ _ = NaN"

text \<open>
  Conversions. An \<^verbatim>\<open>int\<close> is a 32-bit signed word; converting it to \<^verbatim>\<open>double\<close> is exact,
  converting it to \<^verbatim>\<open>size_t\<close> (for the comparison with \<^verbatim>\<open>size()\<close>) wraps modulo \<open>2^64\<close>.
  Converting a \<^verbatim>\<open>double\<close> to \<^verbatim>\<open>int\<close> truncates towards zero and is undefined when the
  truncated value does not fit, which is \<open>None\<close> here.
\<close>

definition double_of_int :: "int32 \<Rightarrow> double" where
  "double_of_int n = fl (of_int (sint n))"

definition size_t_of_int :: "int32 \<Rightarrow> nat" where
  "size_t_of_int n = nat (sint n mod 2 ^ 64)"

fun int_of_double :: "double \<Rightarrow> int32 option" where
  "int_of_double (Fin x) =
     (let t = (if 0 \<le> x then \<lfloor>x\<rfloor> else \<lceil>x\<rceil>)
      in if - (2 ^ 31) \<le> t \<and> t < 2 ^ 31 then Some (word_of_int t) else None)"
| "int_of_double _ = None"

section \<open>The program\<close>

subsection \<open>calculateSMA\<close>

text \<open>
  \<^verbatim>\<open>std::accumulate(first, last, init)\<close> over the index range \<open>[first, final)\<close> of a vector:
  the elements are added to \<open>init\<close> from left to right. In \<open>calculateSMA\<close> the comparison
  of \<^verbatim>\<open>size()\<close> with the \<^verbatim>\<open>int\<close> period is made in \<^verbatim>\<open>size_t\<close>, the iterator
  \<^verbatim>\<open>prices.end() - period\<close> is the index \<open>size - period\<close>, and the sum is divided by the
  period converted to \<^verbatim>\<open>double\<close>.
\<close>

function accumulate :: "double list \<Rightarrow> nat \<Rightarrow> nat \<Rightarrow> double \<Rightarrow> double" where
  "accumulate xs first final init =
     (if first < final then accumulate xs (Suc first) final (dadd init (xs ! first)) else init)"
  by pat_completeness auto

termination
  by (relation "measure (\<lambda>(xs, first, final, init). final - first)") auto

declare accumulate.simps [simp del]

definition calculateSMA :: "double list \<Rightarrow> int32 \<Rightarrow> double" where
  "calculateSMA prices period =
     (if length prices < size_t_of_int period then Fin 0
      else let sum = accumulate prices (nat (int (length prices) - sint period))
                       (length prices) (Fin 0)
           in ddiv sum (double_of_int period))"

subsection \<open>runTradingSimulation\<close>

text \<open>
  The local variables of the function are the fields of \<open>sim_state\<close>; the lines it prints
  are kept in \<open>printed\<close>, one event per line with the values the line shows (the day
  \<open>i + 1\<close>, the price, the share count, the cash). The fixed banner lines and the formatting
  of the numbers are left out. The function returns the state it ends in. Two steps of the
  source have undefined behaviour on some inputs and are errors here: the conversion of
  \<open>portfolioValue / marketData[i]\<close> to \<^verbatim>\<open>int\<close> when the quotient does not fit, and
  \<^verbatim>\<open>marketData.back()\<close> on an empty vector (never reached: a position opens only inside
  the loop).
\<close>

datatype event =
    BuySignal nat double int32
  | SellSignal nat double int32 double
  | EndOfSimulation int32 double
  | FinalValue double

datatype error = UndefinedConversion | BackOfEmpty

record sim_state =
  currentPrices :: "double list"
  portfolioValue :: double
  sharesOwned :: int32
  positionOpen :: bool
  prevShortSMA :: double
  prevLongSMA :: double
  printed :: "event list"

definition initial_state :: sim_state where
  "initial_state = \<lparr>currentPrices = [], portfolioValue = Fin 10000, sharesOwned = 0,
     positionOpen = False, prevShortSMA = Fin 0, prevLongSMA = Fin 0, printed = []\<rparr>"

definition loop_body ::
  "double list \<Rightarrow> int32 \<Rightarrow> int32 \<Rightarrow> nat \<Rightarrow> sim_state \<Rightarrow> error + sim_state" where
  "loop_body marketData shortWindow longWindow i st =
     (let price = marketData ! i;
          st1 = st\<lparr>currentPrices := currentPrices st @ [price]\<rparr>
      in if length (currentPrices st1) < size_t_of_int longWindow then Inr st1
         else
           let shortSMA = calculateSMA (currentPrices st1) shortWindow;
               longSMA = calculateSMA (currentPrices st1) longWindow
           in if dgt shortSMA longSMA \<and> dle (prevShortSMA st1) (prevLongSMA st1)
                 \<and> \<not> positionOpen st1
              then (case int_of_double (ddiv (portfolioValue st1) price) of
                      None \<Rightarrow> Inl UndefinedConversion
                    | Some sharesToBuy \<Rightarrow>
                        Inr (st1\<lparr>sharesOwned := sharesToBuy,
                              portfolioValue := dsub (portfolioValue st1)
                                                  (dmul (double_of_int sharesToBuy) price),
                              positionOpen := True,
                              printed := printed st1 @ [BuySignal (i + 1) price sharesToBuy],
                              prevShortSMA := shortSMA, prevLongSMA := longSMA\<rparr>))
              else if dlt shortSMA longSMA \<and> dge (prevShortSMA st1) (prevLongSMA st1)
                      \<and> positionOpen st1
              then (let saleValue = dmul (double_of_int (sharesOwned st1)) price;
                        pv = dadd (portfolioValue st1) saleValue
                    in Inr (st1\<lparr>portfolioValue := pv,
                              printed := printed st1 @ [SellSignal (i + 1) price (sharesOwned st1) pv],
                              sharesOwned := 0, positionOpen := False,
                              prevShortSMA := shortSMA, prevLongSMA := longSMA\<rparr>))
              else Inr (st1\<lparr>prevShortSMA := shortSMA, prevLongSMA := longSMA\<rparr>))"

text \<open>
  The \<^verbatim>\<open>for\<close> loop over \<open>marketData\<close>: \<open>after_days marketData shortWindow longWindow k\<close> is
  the state after its first \<open>k\<close> iterations (the whole loop for \<open>k = length marketData\<close>),
  or the error that stopped it.
\<close>

fun after_days ::
  "double list \<Rightarrow> int32 \<Rightarrow> int32 \<Rightarrow> nat \<Rightarrow> error + sim_state" where
  "after_days marketData shortWindow longWindow 0 = Inr initial_state"
| "after_days marketData shortWindow longWindow (Suc i) =
     (case after_days marketData shortWindow longWindow i of
        Inl e \<Rightarrow> Inl e
      | Inr st \<Rightarrow> if i < length marketData
                  then loop_body marketData shortWindow longWindow i st else Inr st)"

definition runTradingSimulation ::
  "double list \<Rightarrow> int32 \<Rightarrow> int32 \<Rightarrow> error + sim_state" where
  "runTradingSimulation marketData shortWindow longWindow =
     (case after_days marketData shortWindow longWindow (length marketData) of
        Inl e \<Rightarrow> Inl e
      | Inr st \<Rightarrow>
          if positionOpen st then
            (if marketData = [] then Inl BackOfEmpty
             else let finalSaleValue = dmul (double_of_int (sharesOwned st)) (last marketData);
                      pv = dadd (portfolioValue st) finalSaleValue
                  in Inr (st\<lparr>portfolioValue := pv,
                            printed := printed st @ [EndOfSimulation (sharesOwned st) (last marketData),
                                                   FinalValue pv]\<rparr>))
          else Inr (st\<lparr>printed := printed st @ [FinalValue (portfolioValue st)]\<rparr>))"

subsection \<open>The run as a relation between states\<close>

text \<open>
  The same function, read statement by statement as a relation: \<open>iteration\<close> relates the
  state before iteration \<open>i\<close> of the loop to the state after it, with one rule for each path
  through the loop body (the \<^verbatim>\<open>continue\<close> of the warm-up, the BUY branch, the SELL branch,
  neither); \<open>loop_reaches\<close> takes the iterations in the order of the loop, from \<open>i = 0\<close>
  upwards; \<open>run_result\<close> adds the statements after the loop. An execution with undefined
  behaviour has no successor state.
\<close>

inductive iteration ::
  "double list \<Rightarrow> int32 \<Rightarrow> int32 \<Rightarrow> nat \<Rightarrow> sim_state \<Rightarrow> sim_state \<Rightarrow> bool"
  for marketData shortWindow longWindow
where
  warm_up:
    "\<lbrakk>cp = currentPrices st @ [marketData ! i]; length cp < size_t_of_int longWindow\<rbrakk>
     \<Longrightarrow> iteration marketData shortWindow longWindow i st (st\<lparr>currentPrices := cp\<rparr>)"
| buy:
    "\<lbrakk>cp = currentPrices st @ [marketData ! i]; \<not> length cp < size_t_of_int longWindow;
      shortSMA = calculateSMA cp shortWindow; longSMA = calculateSMA cp longWindow;
      dgt shortSMA longSMA; dle (prevShortSMA st) (prevLongSMA st); \<not> positionOpen st;
      int_of_double (ddiv (portfolioValue st) (marketData ! i)) = Some sharesToBuy\<rbrakk>
     \<Longrightarrow> iteration marketData shortWindow longWindow i st
           (st\<lparr>currentPrices := cp, sharesOwned := sharesToBuy,
               portfolioValue := dsub (portfolioValue st)
                                   (dmul (double_of_int sharesToBuy) (marketData ! i)),
               positionOpen := True,
               printed := printed st @ [BuySignal (i + 1) (marketData ! i) sharesToBuy],
               prevShortSMA := shortSMA, prevLongSMA := longSMA\<rparr>)"
| sell:
    "\<lbrakk>cp = currentPrices st @ [marketData ! i]; \<not> length cp < size_t_of_int longWindow;
      shortSMA = calculateSMA cp shortWindow; longSMA = calculateSMA cp longWindow;
      \<not> (dgt shortSMA longSMA \<and> dle (prevShortSMA st) (prevLongSMA st) \<and> \<not> positionOpen st);
      dlt shortSMA longSMA; dge (prevShortSMA st) (prevLongSMA st); positionOpen st;
      pv = dadd (portfolioValue st) (dmul (double_of_int (sharesOwned st)) (marketData ! i))\<rbrakk>
     \<Longrightarrow> iteration marketData shortWindow longWindow i st
           (st\<lparr>currentPrices := cp, portfolioValue := pv,
               printed := printed st @ [SellSignal (i + 1) (marketData ! i) (sharesOwned st) pv],
               sharesOwned := 0, positionOpen := False,
               prevShortSMA := shortSMA, prevLongSMA := longSMA\<rparr>)"
| hold:
    "\<lbrakk>cp = currentPrices st @ [marketData ! i]; \<not> length cp < size_t_of_int longWindow;
      shortSMA = calculateSMA cp shortWindow; longSMA = calculateSMA cp longWindow;
      \<not> (dgt shortSMA longSMA \<and> dle (prevShortSMA st) (prevLongSMA st) \<and> \<not> positionOpen st);
      \<not> (dlt shortSMA longSMA \<and> dge (prevShortSMA st) (prevLongSMA st) \<and> positionOpen st)\<rbrakk>
     \<Longrightarrow> iteration marketData shortWindow longWindow i st
           (st\<lparr>currentPrices := cp, prevShortSMA := shortSMA, prevLongSMA := longSMA\<rparr>)"

inductive loop_reaches ::
  "double list \<Rightarrow> int32 \<Rightarrow> int32 \<Rightarrow> nat \<Rightarrow> sim_state \<Rightarrow> bool"
  for marketData shortWindow longWindow
where
  start: "loop_reaches marketData shortWindow longWindow 0 initial_state"
| next_day:
    "\<lbrakk>loop_reaches marketData shortWindow longWindow i st; i < length marketData;
      iteration marketData shortWindow longWindow i st st'\<rbrakk>
     \<Longrightarrow> loop_reaches marketData shortWindow longWindow (Suc i) st'"

inductive run_result ::
  "double list \<Rightarrow> int32 \<Rightarrow> int32 \<Rightarrow> sim_state \<Rightarrow> bool"
  for marketData shortWindow longWindow
where
  liquidated:
    "\<lbrakk>loop_reaches marketData shortWindow longWindow (length marketData) st;
      positionOpen st; marketData \<noteq> [];
      pv = dadd (portfolioValue st) (dmul (double_of_int (sharesOwned st)) (last marketData))\<rbrakk>
     \<Longrightarrow> run_result marketData shortWindow longWindow
           (st\<lparr>portfolioValue := pv,
               printed := printed st @ [EndOfSimulation (sharesOwned st) (last marketData),
                                      FinalValue pv]\<rparr>)"
| no_position:
    "\<lbrakk>loop_reaches marketData shortWindow longWindow (length marketData) st;
      \<not> positionOpen st\<rbrakk>
     \<Longrightarrow> run_result marketData shortWindow longWindow
           (st\<lparr>printed := printed st @ [FinalValue (portfolioValue st)]\<rparr>)"

code_pred iteration .

code_pred loop_reaches .

code_pred run_result .

subsection \<open>main\<close>

text \<open>
  The price generator of \<^verbatim>\<open>main\<close>: a random walk from 100.0 with a floor of 10.0. The
  values drawn from the normal distribution are the input; \<open>draws k\<close> is the value drawn in
  iteration \<open>k\<close> of the loop, which runs 200 times.
\<close>

fun generate :: "double \<Rightarrow> double list \<Rightarrow> double list" where
  "generate lastPrice [] = []"
| "generate lastPrice (change # changes) =
     (let moved = dadd lastPrice change;
          clamped = (if dlt moved (Fin 10) then Fin 10 else moved)
      in clamped # generate clamped changes)"

definition market_data :: "(nat \<Rightarrow> double) \<Rightarrow> double list" where
  "market_data draws = generate (Fin 100) (map draws [0..<200])"

definition main :: "(nat \<Rightarrow> double) \<Rightarrow> error + sim_state" where
  "main draws = runTradingSimulation (market_data draws) 10 30"

subsection \<open>Notions used to state the properties\<close>

text \<open>
  The rounding of \<open>fl\<close> before the overflow test; a value that rounding leaves unchanged
  is a binary64 value; the marked-to-market value of a portfolio at a price, computed in
  \<^verbatim>\<open>double\<close> arithmetic.
\<close>

definition rd :: "rat \<Rightarrow> rat" where
  "rd x = of_int (round_even (x / 2 powi quantum x)) * 2 powi quantum x"

fun is_value :: "double \<Rightarrow> bool" where
  "is_value (Fin x) = (fl x = Fin x)"
| "is_value _ = True"

definition mark_to_market :: "sim_state \<Rightarrow> double \<Rightarrow> double" where
  "mark_to_market st p = dadd (portfolioValue st) (dmul (double_of_int (sharesOwned st)) p)"

subsection \<open>Price series used below\<close>

text \<open>The rising series: the price on day \<open>d\<close> is \<open>100 + d\<close>, for the days 1 to 200.\<close>

definition rising_prices :: "double list" where
  "rising_prices = map (\<lambda>d. Fin (of_int (100 + int d))) [1..<201]"

text \<open>Twenty-nine days at 1.0, then a day whose price exceeds the starting cash.\<close>

definition costly_prices :: "double list" where
  "costly_prices = replicate 29 (Fin 1) @ [Fin 20000]"

text \<open>
  Twenty-nine days at 70.0, then a day at the binary64 value nearest above \<open>10000 / 132\<close>
  (75.75757575757576...).
\<close>

definition overspend_prices :: "double list" where
  "overspend_prices = replicate 29 (Fin 70) @ [Fin (5330965468004849 / 70368744177664)]"

subsection \<open>Drawn values used below\<close>

text \<open>A run of \<^verbatim>\<open>main\<close> in which every value drawn is 0.0, and one in which every value is 1.0.\<close>

definition flat_draws :: "nat \<Rightarrow> double" where
  "flat_draws k = Fin 0"

definition unit_draws :: "nat \<Rightarrow> double" where
  "unit_draws k = Fin 1"

section \<open>Basic facts about the model\<close>

lemma size_t_of_int_nonneg: "0 \<le> sint n \<Longrightarrow> size_t_of_int (n::int32) = nat (sint n)"
proof -
  assume a: "0 \<le> sint n"
  have "sint n < 2 ^ 31" using sint_lt [of n] by simp
  then have "sint n < 2 ^ 64" by (rule less_trans) simp
  with a show ?thesis by (simp add: size_t_of_int_def)
qed

lemma accumulate_foldl:
  "final \<le> length xs \<Longrightarrow>
   accumulate xs first final init = foldl dadd init (take (final - first) (drop first xs))"
proof (induction xs first final init rule: accumulate.induct)
  case (1 xs first final init)
  show ?case
  proof (cases "first < final")
    case True
    then have lt: "first < length xs" using "1.prems" by simp
    have d: "drop first xs = xs ! first # drop (Suc first) xs"
      using lt by (simp add: Cons_nth_drop_Suc)
    have f: "final - first = Suc (final - Suc first)" using True by simp
    show ?thesis
      using True "1.IH" [OF True "1.prems"]
      by (subst accumulate.simps) (simp add: d f)
  next
    case False
    then show ?thesis by (subst accumulate.simps) simp
  qed
qed

lemma calculateSMA_enough:
  assumes "0 < sint period" and "nat (sint period) \<le> length prices"
  shows "calculateSMA prices period =
    ddiv (foldl dadd (Fin 0) (drop (length prices - nat (sint period)) prices))
      (double_of_int period)"
proof -
  have s: "size_t_of_int period = nat (sint period)"
    using assms(1) by (simp add: size_t_of_int_nonneg)
  have n: "nat (int (length prices) - sint period) = length prices - nat (sint period)"
    using assms(1) by simp
  have t: "length prices - (length prices - nat (sint period)) = nat (sint period)"
    using assms(2) by simp
  show ?thesis
    using assms(2) by (simp add: calculateSMA_def s accumulate_foldl n t)
qed

lemma loop_body_warmup:
  "length (currentPrices st) + 1 < size_t_of_int longWindow \<Longrightarrow>
   loop_body marketData shortWindow longWindow i st =
     Inr (st\<lparr>currentPrices := currentPrices st @ [marketData ! i]\<rparr>)"
  by (simp add: loop_body_def Let_def)

lemma loop_body_buy:
  assumes "\<not> length (currentPrices st) + 1 < size_t_of_int longWindow"
    and "dgt (calculateSMA (currentPrices st @ [marketData ! i]) shortWindow)
             (calculateSMA (currentPrices st @ [marketData ! i]) longWindow)"
    and "dle (prevShortSMA st) (prevLongSMA st)" and "\<not> positionOpen st"
  shows "loop_body marketData shortWindow longWindow i st =
    (case int_of_double (ddiv (portfolioValue st) (marketData ! i)) of
       None \<Rightarrow> Inl UndefinedConversion
     | Some sharesToBuy \<Rightarrow>
         Inr (st\<lparr>currentPrices := currentPrices st @ [marketData ! i],
               sharesOwned := sharesToBuy,
               portfolioValue := dsub (portfolioValue st)
                                   (dmul (double_of_int sharesToBuy) (marketData ! i)),
               positionOpen := True,
               printed := printed st @ [BuySignal (i + 1) (marketData ! i) sharesToBuy],
               prevShortSMA := calculateSMA (currentPrices st @ [marketData ! i]) shortWindow,
               prevLongSMA := calculateSMA (currentPrices st @ [marketData ! i]) longWindow\<rparr>))"
  using assms by (simp add: loop_body_def Let_def split: option.splits)

lemma loop_body_sell:
  assumes "\<not> length (currentPrices st) + 1 < size_t_of_int longWindow"
    and "dlt (calculateSMA (currentPrices st @ [marketData ! i]) shortWindow)
             (calculateSMA (currentPrices st @ [marketData ! i]) longWindow)"
    and "dge (prevShortSMA st) (prevLongSMA st)" and "positionOpen st"
  shows "loop_body marketData shortWindow longWindow i st =
     Inr (st\<lparr>currentPrices := currentPrices st @ [marketData ! i],
           portfolioValue := dadd (portfolioValue st)
                               (dmul (double_of_int (sharesOwned st)) (marketData ! i)),
           printed := printed st @ [SellSignal (i + 1) (marketData ! i) (sharesOwned st)
                       (dadd (portfolioValue st)
                          (dmul (double_of_int (sharesOwned st)) (marketData ! i)))],
           sharesOwned := 0, positionOpen := False,
           prevShortSMA := calculateSMA (currentPrices st @ [marketData ! i]) shortWindow,
           prevLongSMA := calculateSMA (currentPrices st @ [marketData ! i]) longWindow\<rparr>)"
  using assms by (simp add: loop_body_def Let_def)

lemma loop_body_hold:
  assumes "\<not> length (currentPrices st) + 1 < size_t_of_int longWindow"
    and "\<not> (dgt (calculateSMA (currentPrices st @ [marketData ! i]) shortWindow)
               (calculateSMA (currentPrices st @ [marketData ! i]) longWindow)
            \<and> dle (prevShortSMA st) (prevLongSMA st) \<and> \<not> positionOpen st)"
    and "\<not> (dlt (calculateSMA (currentPrices st @ [marketData ! i]) shortWindow)
               (calculateSMA (currentPrices st @ [marketData ! i]) longWindow)
            \<and> dge (prevShortSMA st) (prevLongSMA st) \<and> positionOpen st)"
  shows "loop_body marketData shortWindow longWindow i st =
     Inr (st\<lparr>currentPrices := currentPrices st @ [marketData ! i],
           prevShortSMA := calculateSMA (currentPrices st @ [marketData ! i]) shortWindow,
           prevLongSMA := calculateSMA (currentPrices st @ [marketData ! i]) longWindow\<rparr>)"
  using assms by (auto simp add: loop_body_def Let_def)

lemma loop_body_cases:
  obtains
    (warmup) "length (currentPrices st) + 1 < size_t_of_int longWindow"
  | (buy) "\<not> length (currentPrices st) + 1 < size_t_of_int longWindow"
      "dgt (calculateSMA (currentPrices st @ [marketData ! i]) shortWindow)
           (calculateSMA (currentPrices st @ [marketData ! i]) longWindow)"
      "dle (prevShortSMA st) (prevLongSMA st)" "\<not> positionOpen st"
  | (sell) "\<not> length (currentPrices st) + 1 < size_t_of_int longWindow"
      "dlt (calculateSMA (currentPrices st @ [marketData ! i]) shortWindow)
           (calculateSMA (currentPrices st @ [marketData ! i]) longWindow)"
      "dge (prevShortSMA st) (prevLongSMA st)" "positionOpen st"
  | (hold) "\<not> length (currentPrices st) + 1 < size_t_of_int longWindow"
      "\<not> (dgt (calculateSMA (currentPrices st @ [marketData ! i]) shortWindow)
             (calculateSMA (currentPrices st @ [marketData ! i]) longWindow)
          \<and> dle (prevShortSMA st) (prevLongSMA st) \<and> \<not> positionOpen st)"
      "\<not> (dlt (calculateSMA (currentPrices st @ [marketData ! i]) shortWindow)
             (calculateSMA (currentPrices st @ [marketData ! i]) longWindow)
          \<and> dge (prevShortSMA st) (prevLongSMA st) \<and> positionOpen st)"
  by blast

lemma loop_body_prices:
  "loop_body marketData shortWindow longWindow i st = Inr st' \<Longrightarrow>
   currentPrices st' = currentPrices st @ [marketData ! i]"
  by (cases rule: loop_body_cases [where st = st and longWindow = longWindow
        and marketData = marketData and i = i and shortWindow = shortWindow])
     (auto simp: loop_body_warmup loop_body_buy loop_body_sell loop_body_hold
           split: option.splits)

lemma after_days_Suc:
  "after_days marketData shortWindow longWindow i = Inr st \<Longrightarrow> i < length marketData \<Longrightarrow>
   after_days marketData shortWindow longWindow (Suc i) =
     loop_body marketData shortWindow longWindow i st"
  by simp

lemma after_days_prices:
  "after_days marketData shortWindow longWindow i = Inr st \<Longrightarrow> i \<le> length marketData \<Longrightarrow>
   currentPrices st = take i marketData"
proof (induction i arbitrary: st)
  case 0
  then show ?case by (auto simp add: initial_state_def)
next
  case (Suc i)
  from Suc.prems obtain s where s: "after_days marketData shortWindow longWindow i = Inr s"
    by (auto split: sum.splits)
  from Suc.prems have lt: "i < length marketData" by simp
  have "currentPrices s = take i marketData" using Suc.IH [OF s] lt by simp
  moreover have "loop_body marketData shortWindow longWindow i s = Inr st"
    using Suc.prems(1) s lt by simp
  ultimately show ?case
    using lt by (simp add: loop_body_prices take_Suc_conv_app_nth)
qed

lemma warm_guard:
  assumes "0 \<le> sint longWindow"
  shows "(n < size_t_of_int longWindow) = (int n < sint longWindow)"
  using assms by (simp add: size_t_of_int_nonneg) linarith

lemma day_facts:
  assumes "i < length marketData"
    and "after_days marketData shortWindow longWindow i = Inr st"
  shows "after_days marketData shortWindow longWindow (Suc i) =
           loop_body marketData shortWindow longWindow i st"
    and "currentPrices st @ [marketData ! i] = take (Suc i) marketData"
    and "length (currentPrices st) + 1 = Suc i"
proof -
  have p: "currentPrices st = take i marketData"
    using after_days_prices [OF assms(2)] assms(1) by simp
  show "after_days marketData shortWindow longWindow (Suc i) =
           loop_body marketData shortWindow longWindow i st"
    using assms by simp
  show "currentPrices st @ [marketData ! i] = take (Suc i) marketData"
    using p assms(1) by (simp add: take_Suc_conv_app_nth)
  show "length (currentPrices st) + 1 = Suc i"
    using p assms(1) by simp
qed

section \<open>Rounding\<close>

text \<open>
  The binary exponent is located correctly, rounding leaves integers and half-integers of
  moderate size unchanged, it is monotone, and a rounded value is a fixed point.
\<close>

lemma bitlen_powi:
  assumes "0 < a"
  shows "(2::rat) powi (bitlen a - 1) \<le> of_int a" and "of_int a < (2::rat) powi bitlen a"
proof -
  from bitlen_bounds [OF assms]
  have lo: "2 ^ nat (bitlen a - 1) \<le> a" and hi: "a < 2 ^ nat (bitlen a)" by simp_all
  have ge: "1 \<le> bitlen a" using assms by (simp add: bitlen_alt_def)
  have "(of_int (2 ^ nat (bitlen a - 1)) :: rat) \<le> of_int a"
    using lo by (simp only: of_int_le_iff)
  then show "(2::rat) powi (bitlen a - 1) \<le> of_int a"
    using ge by (simp add: power_int_nonneg_exp)
  have "(of_int a :: rat) < of_int (2 ^ nat (bitlen a))"
    using hi by (simp only: of_int_less_iff)
  then show "of_int a < (2::rat) powi bitlen a"
    using ge by (simp add: power_int_nonneg_exp)
qed

lemma ilog2_bounds:
  assumes "0 < x"
  shows "2 powi ilog2 x \<le> x" and "x < 2 powi (ilog2 x + 1)"
proof -
  obtain a b where q: "quotient_of x = (a, b)" by (cases "quotient_of x")
  have b: "0 < b" using q by (rule quotient_of_denom_pos)
  have x: "x = of_int a / of_int b" using q by (rule quotient_of_div)
  have a: "0 < a" using assms b x by (simp add: zero_less_divide_iff)
  define d where "d = bitlen a - bitlen b"
  note A = bitlen_powi [OF a] and B = bitlen_powi [OF b]
  have bpos: "(0::rat) < of_int b" using b by simp
  have "x * 2 powi (bitlen b - 1) \<le> x * of_int b"
    using B(1) assms by (simp add: mult_left_mono)
  also have "\<dots> = of_int a" using x bpos by simp
  also have "\<dots> < 2 powi bitlen a" by (rule A(2))
  finally have "x < 2 powi bitlen a / 2 powi (bitlen b - 1)"
    by (simp add: pos_less_divide_eq)
  then have hi: "x < 2 powi (d + 1)"
    by (simp add: d_def power_int_diff [symmetric] algebra_simps)
  have "2 powi (bitlen a - 1) \<le> (of_int a :: rat)" by (rule A(1))
  also have "\<dots> = x * of_int b" using x bpos by simp
  also have "\<dots> < x * 2 powi bitlen b"
    using B(2) assms by (simp add: mult_strict_left_mono)
  finally have "2 powi (bitlen a - 1) / 2 powi bitlen b < x"
    by (simp add: pos_divide_less_eq)
  then have lo: "2 powi (d - 1) < x"
    by (simp add: d_def power_int_diff [symmetric] algebra_simps)
  have e: "ilog2 x = (if 2 powi d \<le> x then d else d - 1)"
    by (simp add: ilog2_def q d_def)
  show "2 powi ilog2 x \<le> x" using lo by (simp add: e)
  show "x < 2 powi (ilog2 x + 1)" using hi by (simp add: e)
qed

lemma ilog2_unique:
  assumes "2 powi e \<le> x" and "x < 2 powi (e + 1)"
  shows "ilog2 x = e"
proof -
  have pos: "0 < x" using assms(1) by (rule less_le_trans [rotated]) simp
  note b = ilog2_bounds [OF pos]
  have "(2::rat) powi e < 2 powi (ilog2 x + 1)" using assms(1) b(2) by simp
  then have 1: "e < ilog2 x + 1"
    by (metis not_less power_int_increasing one_le_numeral)
  have "(2::rat) powi ilog2 x < 2 powi (e + 1)" using assms(2) b(1) by simp
  then have 2: "ilog2 x < e + 1"
    by (metis not_less power_int_increasing one_le_numeral)
  from 1 2 show ?thesis by simp
qed

lemma ilog2_less:
  assumes "0 < x" and "x < 2 powi e"
  shows "ilog2 x < e"
proof -
  have "(2::rat) powi ilog2 x < 2 powi e" using ilog2_bounds(1) [OF assms(1)] assms(2) by simp
  then show ?thesis by (metis not_less power_int_increasing one_le_numeral)
qed

lemma ilog2_ge:
  assumes "2 powi e \<le> x"
  shows "e \<le> ilog2 x"
proof -
  have pos: "0 < x" using assms(1) by (rule less_le_trans [rotated]) simp
  have "(2::rat) powi e < 2 powi (ilog2 x + 1)" using ilog2_bounds(2) [OF pos] assms by simp
  then have "e < ilog2 x + 1" by (metis not_less power_int_increasing one_le_numeral)
  then show ?thesis by simp
qed

lemma round_even_of_int [simp]: "round_even (of_int k) = k"
  by (simp add: round_even_def)

lemma round_even_minus: "round_even (- x) = - round_even x"
proof (cases "x \<in> \<int>")
  case True
  then obtain k where "x = of_int k" by (auto elim: Ints_cases)
  then show ?thesis by (simp flip: of_int_minus)
next
  case False
  then have ne: "of_int \<lfloor>x\<rfloor> \<noteq> x" by (metis Ints_of_int)
  then have fl: "\<lfloor>- x\<rfloor> = - \<lfloor>x\<rfloor> - 1"
    by (auto simp add: ceiling_altdef floor_minus)
  have fr: "0 < x - of_int \<lfloor>x\<rfloor>" "x - of_int \<lfloor>x\<rfloor> < 1"
    using ne of_int_floor_le [of x] by linarith+
  show ?thesis
    using fr by (auto simp: round_even_def Let_def fl)
qed

lemma fl_exact:
  assumes x: "x = of_int m * 2 powi e" and m: "\<bar>m\<bar> < 2 ^ 53"
    and e: "- 1074 \<le> e" "e \<le> 971"
  shows "fl x = Fin x"
proof (cases "x = 0")
  case True
  then show ?thesis by (simp add: fl_def)
next
  case False
  then have pos: "0 < \<bar>x\<bar>" by simp
  have "\<bar>x\<bar> = of_int \<bar>m\<bar> * 2 powi e" by (simp add: x abs_mult power_int_abs)
  also have "\<dots> < 2 ^ 53 * 2 powi e"
  proof -
    have "(of_int \<bar>m\<bar> :: rat) < of_int (2 ^ 53)" using m by (simp only: of_int_less_iff)
    then show ?thesis by (simp add: mult_strict_right_mono)
  qed
  also have "\<dots> = 2 powi (53 + e)" by (simp add: power_int_add)
  finally have up: "\<bar>x\<bar> < 2 powi (53 + e)" .
  have il: "ilog2 \<bar>x\<bar> < 53 + e" using pos up by (rule ilog2_less)
  define q where "q = quantum x"
  have qe: "q \<le> e" using il e by (simp add: q_def quantum_def)
  have "x / 2 powi q = of_int m * 2 powi (e - q)"
    by (simp add: x power_int_diff)
  also have "\<dots> = of_int (m * 2 ^ nat (e - q))"
    using qe by (simp add: power_int_nonneg_exp)
  finally have r: "round_even (x / 2 powi q) = m * 2 ^ nat (e - q)"
    by (simp only: round_even_of_int)
  have y: "of_int (round_even (x / 2 powi q)) * 2 powi q = x"
  proof -
    have "(of_int (m * 2 ^ nat (e - q)) :: rat) * 2 powi q
            = of_int m * (2 powi (e - q) * 2 powi q)"
      using qe by (simp add: power_int_nonneg_exp mult.assoc)
    also have "\<dots> = x" by (simp add: x power_int_add [symmetric])
    finally show ?thesis by (simp only: r)
  qed
  have "ilog2 \<bar>x\<bar> < 1024" using il e by simp
  then show ?thesis
    using False by (simp add: fl_def Let_def q_def [symmetric] y)
qed

lemma fl_of_int:
  assumes "\<bar>k\<bar> < 2 ^ 53"
  shows "fl (of_int k) = Fin (of_int k)"
  using fl_exact [of "of_int k" k 0] assms by simp

lemma fl_half_int:
  assumes "\<bar>k\<bar> < 2 ^ 53"
  shows "fl (of_int k / 2) = Fin (of_int k / 2)"
  using fl_exact [of "of_int k / 2" k "- 1"] assms by (simp add: power_int_minus field_simps)

lemma double_of_int_exact: "double_of_int n = Fin (of_int (sint n))"
proof -
  have "\<bar>sint n\<bar> \<le> 2 ^ 31" using sint_lt [of n] sint_ge [of n] by simp
  then have "\<bar>sint n\<bar> < 2 ^ 53" by (rule le_less_trans) simp
  then show ?thesis using fl_of_int [of "sint n"] by (simp add: double_of_int_def)
qed

lemma foldl_dadd_ints:
  assumes "\<forall>k \<in> set ks. 0 \<le> k \<and> k \<le> B" and "0 \<le> a" and "a + B * int (length ks) < 2 ^ 53"
  shows "foldl dadd (Fin (of_int a)) (map (\<lambda>k. Fin (of_int k)) ks)
           = Fin (of_int (a + sum_list ks))"
  using assms
proof (induction ks arbitrary: a)
  case Nil
  then show ?case by simp
next
  case (Cons k ks)
  have k: "0 \<le> k" "k \<le> B" using Cons.prems(1) by simp_all
  have B: "0 \<le> B" using k by simp
  have bound: "a + k + B * int (length ks) < 2 ^ 53"
    using Cons.prems(3) k by (simp add: algebra_simps)
  have "0 \<le> B * int (length ks)" using B by simp
  then have "\<bar>a + k\<bar> < 2 ^ 53" using bound k Cons.prems(2) by linarith
  then have step: "dadd (Fin (of_int a)) (Fin (of_int k)) = Fin (of_int (a + k))"
    using fl_of_int [of "a + k"] by simp
  have ih: "foldl dadd (Fin (of_int (a + k))) (map (\<lambda>k. Fin (of_int k)) ks)
          = Fin (of_int (a + k + sum_list ks))"
    using Cons.prems(1,2) k bound by (intro Cons.IH) simp_all
  have "foldl dadd (Fin (of_int a)) (map (\<lambda>k. Fin (of_int k)) (k # ks))
          = foldl dadd (dadd (Fin (of_int a)) (Fin (of_int k))) (map (\<lambda>k. Fin (of_int k)) ks)"
    by (simp only: list.map foldl_Cons)
  also have "\<dots> = Fin (of_int (a + k + sum_list ks))"
    by (simp only: step ih)
  finally show ?case by (simp only: sum_list.Cons add.assoc)
qed

lemma fl_rd:
  "fl x = (if x = 0 then Fin 0
           else if 1024 \<le> ilog2 \<bar>rd x\<bar> then (if 0 < x then PInf else NInf) else Fin (rd x))"
  by (simp add: fl_def rd_def Let_def)

lemma quantum_ge: "- 1074 \<le> quantum x" "ilog2 \<bar>x\<bar> - 52 \<le> quantum x"
  by (simp_all add: quantum_def)

lemma quantum_abs [simp]: "quantum \<bar>x\<bar> = quantum x" "quantum (- x) = quantum x"
  by (simp_all add: quantum_def)

lemma ilog2_mono:
  assumes "0 < x" and "x \<le> y"
  shows "ilog2 x \<le> ilog2 y"
proof -
  have "2 powi ilog2 x \<le> y" using ilog2_bounds(1) [OF assms(1)] assms(2) by simp
  then show ?thesis by (rule ilog2_ge)
qed

lemma quantum_mono:
  assumes "0 < x" and "x \<le> y"
  shows "quantum x \<le> quantum y"
proof -
  have "ilog2 \<bar>x\<bar> \<le> ilog2 \<bar>y\<bar>" using assms ilog2_mono [of x y] by simp
  then show ?thesis by (simp add: quantum_def)
qed

lemma abs_less_quantum:
  assumes "x \<noteq> 0"
  shows "\<bar>x\<bar> < 2 powi (quantum x + 53)"
proof -
  have "\<bar>x\<bar> < 2 powi (ilog2 \<bar>x\<bar> + 1)" using assms by (intro ilog2_bounds(2)) simp
  also have "\<dots> \<le> 2 powi (quantum x + 53)"
    using quantum_ge(2) [of x] by (intro power_int_increasing) simp_all
  finally show ?thesis .
qed

lemma round_even_cases:
  "round_even x = \<lfloor>x\<rfloor> \<or> round_even x = \<lfloor>x\<rfloor> + 1"
  by (simp add: round_even_def Let_def)

lemma round_even_mono:
  assumes "x \<le> y"
  shows "round_even x \<le> round_even y"
proof (cases "\<lfloor>x\<rfloor> = \<lfloor>y\<rfloor>")
  case True
  then show ?thesis using assms by (auto simp: round_even_def Let_def)
next
  case False
  then have "\<lfloor>x\<rfloor> + 1 \<le> \<lfloor>y\<rfloor>" using floor_mono [OF assms] by simp
  moreover have "round_even x \<le> \<lfloor>x\<rfloor> + 1" using round_even_cases [of x] by auto
  moreover have "\<lfloor>y\<rfloor> \<le> round_even y" using round_even_cases [of y] by auto
  ultimately show ?thesis by simp
qed

lemma rd_zero [simp]: "rd 0 = 0"
  by (simp add: rd_def round_even_def)

lemma rd_minus: "rd (- x) = - rd x"
  by (simp add: rd_def round_even_minus)

lemma rd_nonneg:
  assumes "0 \<le> x"
  shows "0 \<le> rd x"
proof -
  have "0 \<le> x / 2 powi quantum x" using assms by simp
  then have "round_even 0 \<le> round_even (x / 2 powi quantum x)" by (rule round_even_mono)
  then have "0 \<le> round_even (x / 2 powi quantum x)" using round_even_of_int [of 0] by simp
  then show ?thesis by (simp add: rd_def)
qed

lemma rd_ge_pow:
  assumes "2 powi e \<le> x" and "quantum x \<le> e"
  shows "2 powi e \<le> rd x"
proof -
  define q where "q = quantum x"
  have "(2::rat) powi e / 2 powi q = 2 powi (e - q)" by (simp add: power_int_diff)
  also have "\<dots> = of_int (2 ^ nat (e - q))"
    using assms(2) by (simp add: q_def power_int_nonneg_exp)
  finally have i: "(2::rat) powi e / 2 powi q = of_int (2 ^ nat (e - q))" .
  have "2 powi e / 2 powi q \<le> x / 2 powi q" using assms(1) by (simp add: divide_right_mono)
  then have "round_even (of_int (2 ^ nat (e - q))) \<le> round_even (x / 2 powi q)"
    unfolding i by (rule round_even_mono)
  then have "(of_int (2 ^ nat (e - q)) :: rat) \<le> of_int (round_even (x / 2 powi q))"
    by (simp only: round_even_of_int of_int_le_iff)
  then have "(2::rat) powi e / 2 powi q \<le> of_int (round_even (x / 2 powi q))" by (simp only: i)
  then show ?thesis by (simp add: rd_def q_def pos_divide_le_eq)
qed

lemma rd_le_pow:
  assumes "x \<le> 2 powi e" and "quantum x \<le> e"
  shows "rd x \<le> 2 powi e"
proof -
  define q where "q = quantum x"
  have "(2::rat) powi e / 2 powi q = 2 powi (e - q)" by (simp add: power_int_diff)
  also have "\<dots> = of_int (2 ^ nat (e - q))"
    using assms(2) by (simp add: q_def power_int_nonneg_exp)
  finally have i: "(2::rat) powi e / 2 powi q = of_int (2 ^ nat (e - q))" .
  have "x / 2 powi q \<le> 2 powi e / 2 powi q" using assms(1) by (simp add: divide_right_mono)
  then have "round_even (x / 2 powi q) \<le> round_even (of_int (2 ^ nat (e - q)))"
    unfolding i by (rule round_even_mono)
  then have "(of_int (round_even (x / 2 powi q)) :: rat) \<le> of_int (2 ^ nat (e - q))"
    by (simp only: round_even_of_int of_int_le_iff)
  then have "of_int (round_even (x / 2 powi q)) \<le> (2::rat) powi e / 2 powi q" by (simp only: i)
  then show ?thesis by (simp add: rd_def q_def pos_le_divide_eq)
qed

lemma rd_mono_pos:
  assumes "0 < x" and "x \<le> y"
  shows "rd x \<le> rd y"
proof (cases "quantum x = quantum y")
  case True
  have "x / 2 powi quantum y \<le> y / 2 powi quantum y"
    using assms(2) by (simp add: divide_right_mono)
  then have "round_even (x / 2 powi quantum y) \<le> round_even (y / 2 powi quantum y)"
    by (rule round_even_mono)
  then show ?thesis by (simp add: rd_def True mult_right_mono)
next
  case False
  have ypos: "0 < y" using assms by simp
  have lt: "quantum x < quantum y" using quantum_mono [OF assms] False by simp
  define E where "E = ilog2 y"
  have "- 1074 < quantum y" using lt quantum_ge(1) [of x] by simp
  then have "quantum y = ilog2 \<bar>y\<bar> - 52" by (simp add: quantum_def max_def split: if_splits)
  then have qy: "quantum y = E - 52" using ypos by (simp add: E_def)
  have "ilog2 x - 52 \<le> quantum x" using quantum_ge(2) [of x] assms(1) by simp
  then have "ilog2 x + 1 \<le> E" using lt qy by simp
  then have "(2::rat) powi (ilog2 x + 1) \<le> 2 powi E"
    by (intro power_int_increasing) simp_all
  then have xE: "x \<le> 2 powi E" using ilog2_bounds(2) [OF assms(1)] by simp
  have Ey: "2 powi E \<le> y" unfolding E_def using ypos by (rule ilog2_bounds(1))
  have "rd x \<le> 2 powi E" using xE lt qy by (intro rd_le_pow) simp_all
  also have "\<dots> \<le> rd y" using Ey qy by (intro rd_ge_pow) simp_all
  finally show ?thesis .
qed

lemma rd_mono:
  assumes "x \<le> y"
  shows "rd x \<le> rd y"
proof -
  consider "0 < x" | "x \<le> 0" "0 \<le> y" | "y < 0" by linarith
  then show ?thesis
  proof cases
    case 1
    then show ?thesis using assms by (rule rd_mono_pos)
  next
    case 2
    have "rd x = - rd (- x)" by (simp add: rd_minus)
    also have "\<dots> \<le> 0" using rd_nonneg [of "- x"] 2(1) by simp
    also have "\<dots> \<le> rd y" using 2(2) by (rule rd_nonneg)
    finally show ?thesis .
  next
    case 3
    then have "rd (- y) \<le> rd (- x)" using assms by (intro rd_mono_pos) simp_all
    then show ?thesis by (simp add: rd_minus)
  qed
qed

lemma ilog2_zero: "ilog2 0 = - 2"
  by code_simp

lemma fl_exact_gen:
  assumes x: "x = of_int m * 2 powi e" and e: "- 1074 \<le> e"
    and b: "\<bar>x\<bar> < 2 powi (e + 53)" and o: "\<bar>x\<bar> < 2 powi 1024"
  shows "fl x = Fin x"
proof (cases "x = 0")
  case True
  then show ?thesis by (simp add: fl_def)
next
  case False
  then have pos: "0 < \<bar>x\<bar>" by simp
  have il: "ilog2 \<bar>x\<bar> < e + 53" using pos b by (rule ilog2_less)
  define q where "q = quantum x"
  have qe: "q \<le> e" using il e by (simp add: q_def quantum_def)
  have "x / 2 powi q = of_int m * 2 powi (e - q)"
    by (simp add: x power_int_diff)
  also have "\<dots> = of_int (m * 2 ^ nat (e - q))"
    using qe by (simp add: power_int_nonneg_exp)
  finally have r: "round_even (x / 2 powi q) = m * 2 ^ nat (e - q)"
    by (simp only: round_even_of_int)
  have "(of_int (m * 2 ^ nat (e - q)) :: rat) * 2 powi q
            = of_int m * (2 powi (e - q) * 2 powi q)"
    using qe by (simp add: power_int_nonneg_exp mult.assoc)
  also have "\<dots> = x" by (simp add: x power_int_add [symmetric])
  finally have y: "rd x = x" by (simp only: rd_def q_def [symmetric] r)
  have "ilog2 \<bar>x\<bar> < 1024" using pos o by (rule ilog2_less)
  then show ?thesis using False by (simp add: fl_rd y)
qed

lemma fl_fixed_rd:
  assumes "fl x = Fin x"
  shows "rd x = x"
  using assms by (cases "x = 0") (auto simp: fl_rd split: if_splits)

lemma fl_fixed_repr:
  assumes "fl x = Fin x"
  shows "x = of_int (round_even (x / 2 powi quantum x)) * 2 powi quantum x"
  using fl_fixed_rd [OF assms] by (simp add: rd_def)

lemma fl_fixed_bound:
  assumes "fl x = Fin x"
  shows "\<bar>x\<bar> < 2 powi 1024"
proof (cases "x = 0")
  case True
  then show ?thesis by simp
next
  case False
  then have "rd x = x" and "ilog2 \<bar>x\<bar> < 1024"
    using assms by (auto simp: fl_rd split: if_splits)
  have "\<bar>x\<bar> < 2 powi (ilog2 \<bar>x\<bar> + 1)" using False by (intro ilog2_bounds(2)) simp
  also have "\<dots> \<le> 2 powi 1024"
    using \<open>ilog2 \<bar>x\<bar> < 1024\<close> by (intro power_int_increasing) simp_all
  finally show ?thesis .
qed

lemma fl_finite_rd:
  assumes "fl x = Fin y"
  shows "y = rd x" and "ilog2 \<bar>y\<bar> < 1024"
  using assms by (cases "x = 0"; auto simp: fl_rd ilog2_zero split: if_splits)+

lemma rd_abs_le:
  "\<bar>rd x\<bar> \<le> 2 powi (quantum x + 53)"
proof (cases "x = 0")
  case True
  then show ?thesis by simp
next
  case False
  define q where "q = quantum x"
  have pq: "(0::rat) < 2 powi q" by simp
  have "\<bar>x\<bar> < 2 powi (q + 53)" unfolding q_def using False by (rule abs_less_quantum)
  then have "\<bar>x\<bar> / 2 powi q < 2 powi (q + 53) / 2 powi q"
    using pq by (simp add: divide_strict_right_mono)
  also have "\<dots> = 2 ^ 53" by (simp add: power_int_add)
  finally have b: "\<bar>x / 2 powi q\<bar> < 2 ^ 53" by (simp add: abs_divide)
  have i: "(2::rat) ^ 53 = of_int (2 ^ 53)" by simp
  have b2: "x / 2 powi q < 2 ^ 53" "- (2 ^ 53) < x / 2 powi q"
    using b abs_less_iff [of "x / 2 powi q" "2 ^ 53"] by linarith+
  have "x / 2 powi q \<le> of_int (2 ^ 53)" using b2(1) unfolding i [symmetric] by linarith
  then have "round_even (x / 2 powi q) \<le> round_even (of_int (2 ^ 53))"
    by (rule round_even_mono)
  then have up: "round_even (x / 2 powi q) \<le> 2 ^ 53" by (simp only: round_even_of_int)
  have "of_int (- (2 ^ 53)) \<le> x / 2 powi q" using b2(2) by simp
  then have "round_even (of_int (- (2 ^ 53))) \<le> round_even (x / 2 powi q)"
    by (rule round_even_mono)
  then have lo: "- (2 ^ 53) \<le> round_even (x / 2 powi q)" by (simp only: round_even_of_int)
  from up lo have "\<bar>round_even (x / 2 powi q)\<bar> \<le> 2 ^ 53" by simp
  then have "(of_int \<bar>round_even (x / 2 powi q)\<bar> :: rat) \<le> of_int (2 ^ 53)"
    by (simp only: of_int_le_iff)
  then have "\<bar>rd x\<bar> \<le> 2 ^ 53 * 2 powi q"
    by (simp add: rd_def q_def abs_mult power_int_abs mult_right_mono)
  also have "\<dots> = 2 powi (q + 53)" by (simp add: power_int_add)
  finally show ?thesis by (simp add: q_def)
qed

lemma fl_idem:
  assumes "fl x = Fin y"
  shows "fl y = Fin y"
proof (cases "y = 0")
  case True
  then show ?thesis by (simp add: fl_def)
next
  case False
  note f = fl_finite_rd [OF assms]
  define q where "q = quantum x"
  have q: "- 1074 \<le> q" by (simp add: q_def quantum_ge)
  have le: "\<bar>y\<bar> \<le> 2 powi (q + 53)" unfolding f(1) q_def by (rule rd_abs_le)
  have "\<bar>y\<bar> < 2 powi (ilog2 \<bar>y\<bar> + 1)" using False by (intro ilog2_bounds(2)) simp
  also have "\<dots> \<le> 2 powi 1024" using f(2) by (intro power_int_increasing) simp_all
  finally have o: "\<bar>y\<bar> < 2 powi 1024" .
  show ?thesis
  proof (cases "\<bar>y\<bar> = 2 powi (q + 53)")
    case True
    have "y = of_int (if 0 < y then 1 else - 1) * 2 powi (q + 53)"
      using True False by (auto simp: abs_if split: if_splits)
    moreover have "\<bar>y\<bar> < 2 powi (q + 53 + 53)"
      unfolding True by (intro power_int_strict_increasing) simp_all
    ultimately show ?thesis
      using q o
      by (intro fl_exact_gen [where e = "q + 53" and m = "if 0 < y then 1 else - 1"]) simp_all
  next
    case False
    with le have "\<bar>y\<bar> < 2 powi (q + 53)" by simp
    moreover have "y = of_int (round_even (x / 2 powi q)) * 2 powi q"
      by (simp add: f(1) rd_def q_def)
    ultimately show ?thesis
      using q o
      by (intro fl_exact_gen [where e = q and m = "round_even (x / 2 powi q)"]) simp_all
  qed
qed

lemma fl_minus: "fl (- x) = dneg (fl x)"
  by (simp add: fl_rd rd_minus)

lemma fl_le:
  assumes "x \<le> r" and "fl r = Fin r"
  shows "fl x = NInf \<or> (\<exists>v. fl x = Fin v \<and> v \<le> r)"
proof (cases "0 < x")
  case False
  then show ?thesis
  proof (cases "x = 0")
    case True
    then show ?thesis using assms by (simp add: fl_def)
  next
    case False
    have "rd x \<le> rd r" using assms(1) by (rule rd_mono)
    then show ?thesis
      using False \<open>\<not> 0 < x\<close> by (auto simp: fl_rd fl_fixed_rd [OF assms(2)])
  qed
next
  case True
  then have rpos: "0 < r" using assms(1) by simp
  have le: "rd x \<le> r" using rd_mono [OF assms(1)] by (simp add: fl_fixed_rd [OF assms(2)])
  have nn: "0 \<le> rd x" using True by (intro rd_nonneg) simp
  have "ilog2 \<bar>rd x\<bar> < 1024"
  proof (cases "rd x = 0")
    case True
    then show ?thesis by (simp add: ilog2_zero)
  next
    case False
    then have "0 < rd x" using nn by simp
    then have "ilog2 (rd x) \<le> ilog2 r" using le by (rule ilog2_mono)
    moreover have "ilog2 r < 1024"
      using rpos fl_fixed_bound [OF assms(2)] by (intro ilog2_less) simp_all
    ultimately show ?thesis using nn by simp
  qed
  then show ?thesis using True le by (simp add: fl_rd)
qed

lemma fl_ge:
  assumes "r \<le> x" and "fl r = Fin r"
  shows "fl x = PInf \<or> (\<exists>v. fl x = Fin v \<and> r \<le> v)"
proof -
  have "fl (- r) = Fin (- r)" using assms(2) by (simp add: fl_minus)
  moreover have "- x \<le> - r" using assms(1) by simp
  ultimately have "fl (- x) = NInf \<or> (\<exists>v. fl (- x) = Fin v \<and> v \<le> - r)" by (rule fl_le [rotated])
  then show ?thesis
    by (cases "fl x") (auto simp: fl_minus)
qed

lemma fl_diff_exact:
  assumes a: "fl a = Fin a" and b: "fl b = Fin b"
    and q: "quantum a \<le> quantum b" and le: "\<bar>a - b\<bar> \<le> \<bar>a\<bar>"
  shows "fl (a - b) = Fin (a - b)"
proof (cases "a = 0")
  case True
  then have "a - b = 0" using le by simp
  then show ?thesis by (simp add: fl_def)
next
  case False
  define qa where "qa = quantum a"
  define qb where "qb = quantum b"
  define ka where "ka = round_even (a / 2 powi qa)"
  define kb where "kb = round_even (b / 2 powi qb)"
  have ra: "a = of_int ka * 2 powi qa"
    unfolding ka_def qa_def by (rule fl_fixed_repr [OF a])
  have rb: "b = of_int kb * 2 powi qb"
    unfolding kb_def qb_def by (rule fl_fixed_repr [OF b])
  have qq: "qa \<le> qb" using q by (simp add: qa_def qb_def)
  have "(2::rat) powi qb = 2 powi (qb - qa) * 2 powi qa"
    by (simp add: power_int_add [symmetric])
  also have "\<dots> = of_int (2 ^ nat (qb - qa)) * 2 powi qa"
    using qq by (simp add: power_int_nonneg_exp)
  finally have pb: "(2::rat) powi qb = of_int (2 ^ nat (qb - qa)) * 2 powi qa" .
  have "a - b = of_int ka * 2 powi qa - of_int kb * (of_int (2 ^ nat (qb - qa)) * 2 powi qa)"
    using ra rb pb by simp
  also have "\<dots> = of_int (ka - kb * 2 ^ nat (qb - qa)) * 2 powi qa"
    by (simp add: algebra_simps)
  finally have r: "a - b = of_int (ka - kb * 2 ^ nat (qb - qa)) * 2 powi qa" .
  have b1: "\<bar>a - b\<bar> < 2 powi (qa + 53)"
    using le abs_less_quantum [OF False] by (simp add: qa_def)
  have b2: "\<bar>a - b\<bar> < 2 powi 1024"
    using le fl_fixed_bound [OF a] by simp
  have "- 1074 \<le> qa" by (simp add: qa_def quantum_ge)
  then show ?thesis by (rule fl_exact_gen [OF r _ b1 b2])
qed

lemma fl_double:
  assumes x: "fl x = Fin x" and b: "\<bar>x\<bar> < 2 powi 1023"
  shows "fl (2 * x) = Fin (2 * x)"
proof (cases "x = 0")
  case True
  then show ?thesis by (simp add: fl_def)
next
  case False
  define q where "q = quantum x"
  have r: "x = of_int (round_even (x / 2 powi q)) * 2 powi q"
    unfolding q_def by (rule fl_fixed_repr [OF x])
  have p: "(2::rat) powi (q + 1) = 2 * 2 powi q" by (simp add: power_int_add)
  have "2 * x = of_int (round_even (x / 2 powi q)) * 2 powi (q + 1)"
    unfolding p using r by simp
  moreover have "\<bar>2 * x\<bar> < 2 powi (q + 1 + 53)"
  proof -
    have "\<bar>x\<bar> < 2 powi (q + 53)" unfolding q_def using False by (rule abs_less_quantum)
    then have "2 * \<bar>x\<bar> < 2 * 2 powi (q + 53)" by simp
    also have "\<dots> = 2 powi (q + 1 + 53)" by (simp add: power_int_add)
    finally show ?thesis by (simp add: abs_mult)
  qed
  moreover have "\<bar>2 * x\<bar> < 2 powi 1024"
  proof -
    have "2 * \<bar>x\<bar> < 2 * 2 powi 1023" using b by simp
    then show ?thesis by (simp add: abs_mult)
  qed
  moreover have "- 1074 \<le> q + 1" using quantum_ge(1) [of x] by (simp add: q_def)
  ultimately show ?thesis by (intro fl_exact_gen [where e = "q + 1"]) simp_all
qed

lemma fl_half:
  assumes x: "fl x = Fin x" and q: "- 1074 < quantum x"
  shows "fl (x / 2) = Fin (x / 2)"
proof (cases "x = 0")
  case True
  then show ?thesis by (simp add: fl_def)
next
  case False
  define q where "q = quantum x"
  have r: "x = of_int (round_even (x / 2 powi q)) * 2 powi q"
    unfolding q_def by (rule fl_fixed_repr [OF x])
  have p: "(2::rat) powi (q - 1) = 2 powi q / 2" by (simp add: power_int_diff)
  have "x / 2 = of_int (round_even (x / 2 powi q)) * 2 powi (q - 1)"
    unfolding p using r by simp
  moreover have "\<bar>x / 2\<bar> < 2 powi (q - 1 + 53)"
  proof -
    have "\<bar>x\<bar> < 2 powi (q + 53)" unfolding q_def using False by (rule abs_less_quantum)
    then have "\<bar>x\<bar> / 2 < 2 powi (q + 53) / 2" by simp
    also have "\<dots> = 2 powi (q - 1 + 53)" by (simp add: power_int_add power_int_diff)
    finally show ?thesis by (simp add: abs_divide)
  qed
  moreover have "\<bar>x / 2\<bar> < 2 powi 1024"
  proof -
    have "\<bar>x / 2\<bar> \<le> \<bar>x\<bar>" by (simp add: abs_divide)
    then show ?thesis using fl_fixed_bound [OF x] by simp
  qed
  moreover have "- 1074 \<le> q - 1" using assms(2) by (simp add: q_def)
  ultimately show ?thesis by (intro fl_exact_gen [where e = "q - 1"]) simp_all
qed

lemma fl_zero [simp]: "fl 0 = Fin 0"
  by (simp add: fl_def)

lemma buy_core:
  assumes x: "fl x = Fin x" "0 < x" "x < 2 powi 1023" and t: "x / 2 < t" "t < 2 * x"
  shows "\<exists>v. fl t = Fin v \<and> fl (x - v) = Fin (x - v)"
proof -
  have d: "fl (2 * x) = Fin (2 * x)" using x by (intro fl_double) simp_all
  have tpos: "0 \<le> t" using x(2) t(1) by simp
  from fl_le [OF less_imp_le [OF t(2)] d] fl_ge [OF tpos fl_zero]
  obtain v where v: "fl t = Fin v" "0 \<le> v" "v \<le> 2 * x" by auto
  have fv: "fl v = Fin v" using v(1) by (rule fl_idem)
  show ?thesis
  proof (cases "quantum x \<le> quantum v")
    case True
    have "\<bar>x - v\<bar> \<le> \<bar>x\<bar>" using v(2,3) x(2) by simp
    then have "fl (x - v) = Fin (x - v)" using x(1) fv True by (intro fl_diff_exact)
    with v(1) show ?thesis by blast
  next
    case False
    then have "- 1074 < quantum x" using quantum_ge(1) [of v] by simp
    then have h: "fl (x / 2) = Fin (x / 2)" using x(1) by (intro fl_half)
    from fl_ge [OF less_imp_le [OF t(1)] h] v(1) have lo: "x / 2 \<le> v" by simp
    have "\<bar>v - x\<bar> \<le> \<bar>v\<bar>" using lo v(2) x(2) by simp
    then have "fl (v - x) = Fin (v - x)" using fv x(1) False by (intro fl_diff_exact) simp_all
    then have "fl (- (v - x)) = Fin (- (v - x))" by (simp only: fl_minus dneg.simps)
    then have "fl (x - v) = Fin (x - v)" by simp
    with v(1) show ?thesis by blast
  qed
qed

lemma trunc_quotient_bounds:
  assumes u: "0 < u" and w: "fl u = Fin w" and N: "N = \<lfloor>w\<rfloor>" "1 \<le> N" "N \<le> 2 ^ 31"
  shows "of_int N - 1 / 2 < u" and "u < of_int N + 1"
proof -
  have k: "\<bar>2 * N - 1\<bar> < 2 ^ 53" "\<bar>N + 1\<bar> < 2 ^ 53" using N(2,3) by simp_all
  have r1: "fl (of_int N - 1 / 2) = Fin (of_int N - 1 / 2)"
    using fl_half_int [OF k(1)] by (simp add: field_simps)
  have r2: "fl (of_int N + 1) = Fin (of_int N + 1)"
    using fl_of_int [OF k(2)] by simp
  have Nw: "of_int N \<le> w" "w < of_int N + 1" unfolding N(1) by linarith+
  show "of_int N - 1 / 2 < u"
  proof (rule ccontr)
    assume "\<not> of_int N - 1 / 2 < u"
    then have "u \<le> of_int N - 1 / 2" by simp
    from fl_le [OF this r1] w have "w \<le> of_int N - 1 / 2" by simp
    with Nw(1) show False by simp
  qed
  show "u < of_int N + 1"
  proof (rule ccontr)
    assume "\<not> u < of_int N + 1"
    then have "of_int N + 1 \<le> u" by simp
    from fl_ge [OF this r2] w have "of_int N + 1 \<le> w" by simp
    with Nw(2) show False by simp
  qed
qed

lemma sint_word_of_int32:
  assumes "- (2 ^ 31) \<le> t" and "t < 2 ^ 31"
  shows "sint (word_of_int t :: int32) = t"
  using assms by (simp add: sint_sbintrunc' signed_take_bit_int_eq_self)

lemma int_of_double_Some:
  assumes "int_of_double d = Some n"
  obtains w where "d = Fin w" and "sint n = (if 0 \<le> w then \<lfloor>w\<rfloor> else \<lceil>w\<rceil>)"
proof (cases d)
  case (Fin w)
  let ?t = "if 0 \<le> w then \<lfloor>w\<rfloor> else \<lceil>w\<rceil>"
  from assms Fin have r: "- (2 ^ 31) \<le> ?t" "?t < 2 ^ 31" and n: "n = word_of_int ?t"
    by (auto simp: Let_def split: if_splits)
  have "sint n = ?t" unfolding n using r by (rule sint_word_of_int32)
  with Fin show ?thesis by (rule that)
qed (use assms in simp_all)

lemma ratio_window:
  fixes u p x t :: rat
  assumes u: "0 < u" "of_int M - 1 / 2 < u" "u < of_int M + 1" and M: "1 \<le> M"
    and x: "x = u * p" and t: "t = of_int M * p"
  shows "0 < x \<Longrightarrow> x / 2 < t \<and> t < 2 * x"
    and "x < 0 \<Longrightarrow> (- x) / 2 < - t \<and> - t < 2 * (- x)"
proof -
  have M1: "(1::rat) \<le> of_int M" using M by simp
  have a: "u / 2 < of_int M" using u(3) M1 by linarith
  have b: "of_int M < 2 * u" using u(2) M1 by linarith
  {
    assume "0 < x"
    then have p: "0 < p" using u(1) x by (simp add: zero_less_mult_iff)
    have "u / 2 * p < of_int M * p" using a p by (rule mult_strict_right_mono)
    moreover have "of_int M * p < 2 * u * p" using b p by (rule mult_strict_right_mono)
    ultimately show "x / 2 < t \<and> t < 2 * x" by (simp add: x t)
  }
  {
    assume "x < 0"
    then have p: "0 < - p" using u(1) x by (simp add: mult_less_0_iff)
    have "u / 2 * (- p) < of_int M * (- p)" using a p by (rule mult_strict_right_mono)
    moreover have "of_int M * (- p) < 2 * u * (- p)" using b p by (rule mult_strict_right_mono)
    ultimately show "(- x) / 2 < - t \<and> - t < 2 * (- x)" by (simp add: x t)
  }
qed

lemma conserve_window:
  assumes x: "fl x = Fin x" "\<bar>x\<bar> < 2 powi 1023" "x \<noteq> 0"
    and pos: "0 < x \<Longrightarrow> x / 2 < t \<and> t < 2 * x"
    and neg: "x < 0 \<Longrightarrow> (- x) / 2 < - t \<and> - t < 2 * (- x)"
  shows "dadd (dsub (Fin x) (fl t)) (fl t) = Fin x"
proof (cases "0 < x")
  case True
  have "x < 2 powi 1023" using x(2) by simp
  from buy_core [OF x(1) True this] pos [OF True]
  obtain v where v: "fl t = Fin v" "fl (x - v) = Fin (x - v)" by blast
  have "dsub (Fin x) (fl t) = Fin (x - v)" using v by (simp add: dsub_def)
  then show ?thesis using v(1) x(1) by simp
next
  case False
  then have n: "x < 0" using x(3) by simp
  have fx: "fl (- x) = Fin (- x)" using x(1) by (simp add: fl_minus)
  have "0 < - x" "- x < 2 powi 1023" using n x(2) by simp_all
  from buy_core [OF fx this] neg [OF n]
  obtain v where v: "fl (- t) = Fin v" "fl (- x - v) = Fin (- x - v)" by blast
  have ft: "fl t = Fin (- v)" using v(1) by (cases "fl t") (simp_all add: fl_minus)
  have "fl (- (- x - v)) = Fin (- (- x - v))" using v(2) by (simp only: fl_minus dneg.simps)
  then have s: "fl (x + v) = Fin (x + v)" by (simp add: add.commute)
  have "dsub (Fin x) (fl t) = Fin (x + v)" using ft s by (simp add: dsub_def)
  then show ?thesis using ft x(1) by simp
qed

lemma buy_conserves:
  assumes x: "fl x = Fin x" "\<bar>x\<bar> < 2 powi 1023"
    and n: "int_of_double (ddiv (Fin x) (Fin p)) = Some n"
  shows "dadd (dsub (Fin x) (dmul (double_of_int n) (Fin p))) (dmul (double_of_int n) (Fin p))
           = Fin x"
proof -
  have p: "p \<noteq> 0" using n by (auto split: if_splits)
  from n obtain w where w: "fl (x / p) = Fin w"
    and N: "sint n = (if 0 \<le> w then \<lfloor>w\<rfloor> else \<lceil>w\<rceil>)"
    using p by (auto elim: int_of_double_Some)
  define N where "N = sint n"
  have r: "- (2 ^ 31) \<le> N" "N < 2 ^ 31" using sint_ge [of n] sint_lt [of n] by (simp_all add: N_def)
  have m: "dmul (double_of_int n) (Fin p) = fl (of_int N * p)"
    by (simp add: double_of_int_exact N_def)
  show ?thesis
  proof (cases "N = 0")
    case True
    then show ?thesis using x(1) by (simp add: m dsub_def)
  next
    case False
    define u where "u = x / p"
    have xu: "x = u * p" using p by (simp add: u_def)
    have wu: "fl u = Fin w" using w by (simp add: u_def)
    have "0 < x \<Longrightarrow> x / 2 < of_int N * p \<and> of_int N * p < 2 * x"
      and "x < 0 \<Longrightarrow> (- x) / 2 < - (of_int N * p) \<and> - (of_int N * p) < 2 * (- x)"
      and "x \<noteq> 0"
    proof -
      show "x \<noteq> 0"
      proof
        assume "x = 0"
        then have "w = 0" using w by simp
        then show False using N False by (simp add: N_def)
      qed
      consider "0 \<le> w" | "w < 0" by linarith
      then have "(0 < x \<longrightarrow> x / 2 < of_int N * p \<and> of_int N * p < 2 * x)
          \<and> (x < 0 \<longrightarrow> (- x) / 2 < - (of_int N * p) \<and> - (of_int N * p) < 2 * (- x))"
      proof cases
        case 1
        then have Nw: "N = \<lfloor>w\<rfloor>" using N by (simp add: N_def)
        have "0 \<le> \<lfloor>w\<rfloor>" using 1 by simp
        then have N1: "1 \<le> N" using Nw False by linarith
        have upos: "0 < u"
        proof (rule ccontr)
          assume "\<not> 0 < u"
          then have "u \<le> 0" by simp
          from fl_le [OF this fl_zero] wu have "w \<le> 0" by simp
          with 1 have "w = 0" by simp
          then show False using Nw False by simp
        qed
        note b = trunc_quotient_bounds [OF upos wu Nw N1 less_imp_le [OF r(2)]]
        show ?thesis
          using ratio_window [OF upos b N1 xu refl] by blast
      next
        case 2
        then have Nw: "- N = \<lfloor>- w\<rfloor>" using N by (simp add: N_def ceiling_def)
        have wn: "fl (- u) = Fin (- w)" using wu by (simp add: fl_minus)
        have "N \<le> 0" using 2 N by (simp add: N_def ceiling_le_zero)
        then have N1: "1 \<le> - N" using False by simp
        have r2: "- N \<le> 2 ^ 31" using r(1) by simp
        have upos: "0 < - u"
        proof (rule ccontr)
          assume "\<not> 0 < - u"
          then have "0 \<le> u" by simp
          from fl_ge [OF this fl_zero] wu have "0 \<le> w" by simp
          with 2 show False by simp
        qed
        note b = trunc_quotient_bounds [OF upos wn Nw N1 r2]
        have xu': "x = (- u) * (- p)" using xu by simp
        have t': "of_int N * p = of_int (- N) * (- p)" by simp
        show ?thesis
          using ratio_window [OF upos b N1 xu' t'] by blast
      qed
      then show "0 < x \<Longrightarrow> x / 2 < of_int N * p \<and> of_int N * p < 2 * x"
        and "x < 0 \<Longrightarrow> (- x) / 2 < - (of_int N * p) \<and> - (of_int N * p) < 2 * (- x)"
        by blast+
    qed
    then show ?thesis unfolding m using x by (intro conserve_window) simp_all
  qed
qed

text \<open>Invariants of the run: no shares without a position, and cash is a binary64 value.\<close>

lemma is_value_fl [simp]: "is_value (fl x)"
  by (cases "fl x") (simp_all add: fl_idem)

lemma is_value_dadd [simp]: "is_value (dadd a b)"
  by (cases a; cases b) simp_all

lemma is_value_dsub [simp]: "is_value (dsub a b)"
  by (simp add: dsub_def)

lemma dadd_zero:
  assumes "is_value a"
  shows "dadd a (Fin 0) = a"
  using assms by (cases a) simp_all

lemma loop_body_invariant:
  assumes "loop_body marketData shortWindow longWindow i st = Inr st'"
    and "\<not> positionOpen st \<longrightarrow> sharesOwned st = 0" and "is_value (portfolioValue st)"
  shows "(\<not> positionOpen st' \<longrightarrow> sharesOwned st' = 0) \<and> is_value (portfolioValue st')"
proof (cases rule: loop_body_cases [where st = st and longWindow = longWindow
        and marketData = marketData and i = i and shortWindow = shortWindow])
  case warmup
  then show ?thesis using assms by (auto simp: loop_body_warmup)
next
  case buy
  show ?thesis using assms unfolding loop_body_buy [OF buy] by (auto split: option.splits)
next
  case sell
  show ?thesis using assms unfolding loop_body_sell [OF sell] by auto
next
  case hold
  show ?thesis using assms unfolding loop_body_hold [OF hold] by auto
qed

lemma after_days_invariant:
  "after_days marketData shortWindow longWindow i = Inr st \<Longrightarrow>
   (\<not> positionOpen st \<longrightarrow> sharesOwned st = 0) \<and> is_value (portfolioValue st)"
proof (induction i arbitrary: st)
  case 0
  have "fl 10000 = Fin 10000" using fl_of_int [of 10000] by simp
  with 0 show ?case by (auto simp: initial_state_def)
next
  case (Suc i)
  from Suc.prems obtain s where s: "after_days marketData shortWindow longWindow i = Inr s"
    by (auto split: sum.splits)
  note inv = Suc.IH [OF s]
  show ?case
  proof (cases "i < length marketData")
    case True
    then have "loop_body marketData shortWindow longWindow i s = Inr st"
      using Suc.prems s by simp
    then show ?thesis using inv by (intro loop_body_invariant) auto
  next
    case False
    then have "st = s" using Suc.prems s by simp
    then show ?thesis using inv by simp
  qed
qed

section \<open>Helpers for concrete runs\<close>

lemma after_days_warmup:
  assumes "0 \<le> sint longWindow"
  shows "int i < sint longWindow \<Longrightarrow> i \<le> length marketData \<Longrightarrow>
    after_days marketData shortWindow longWindow i
      = Inr (initial_state\<lparr>currentPrices := take i marketData\<rparr>)"
proof (induction i)
  case 0
  then show ?case by (simp add: initial_state_def)
next
  case (Suc i)
  have ih: "after_days marketData shortWindow longWindow i
      = Inr (initial_state\<lparr>currentPrices := take i marketData\<rparr>)"
    using Suc by simp
  have lt: "i < length marketData" using Suc.prems by simp
  have g: "length (currentPrices (initial_state\<lparr>currentPrices := take i marketData\<rparr>)) + 1
             < size_t_of_int longWindow"
    using Suc.prems lt by (simp add: warm_guard [OF assms])
  show ?case
    using lt by (simp add: ih loop_body_warmup [OF g] take_Suc_conv_app_nth)
qed

lemma first_day_buy:
  assumes lw: "0 < sint longWindow" "sint longWindow = int (Suc k)" and k: "k < length marketData"
    and c: "dgt (calculateSMA (take (Suc k) marketData) shortWindow)
                (calculateSMA (take (Suc k) marketData) longWindow)"
    and q: "int_of_double (ddiv (Fin 10000) (marketData ! k)) = Some shares"
  shows "after_days marketData shortWindow longWindow (Suc k) =
    Inr \<lparr>currentPrices = take (Suc k) marketData,
         portfolioValue = dsub (Fin 10000) (dmul (double_of_int shares) (marketData ! k)),
         sharesOwned = shares, positionOpen = True,
         prevShortSMA = calculateSMA (take (Suc k) marketData) shortWindow,
         prevLongSMA = calculateSMA (take (Suc k) marketData) longWindow,
         printed = [BuySignal (Suc k) (marketData ! k) shares]\<rparr>"
proof -
  let ?st = "initial_state\<lparr>currentPrices := take k marketData\<rparr>"
  have nn: "0 \<le> sint longWindow" using lw(1) by simp
  have w: "after_days marketData shortWindow longWindow k = Inr ?st"
    using nn lw(2) k by (intro after_days_warmup) simp_all
  have g: "\<not> length (currentPrices ?st) + 1 < size_t_of_int longWindow"
    using k lw(2) by (simp add: warm_guard [OF nn])
  have t: "currentPrices ?st @ [marketData ! k] = take (Suc k) marketData"
    using k by (simp add: take_Suc_conv_app_nth)
  have c1: "dgt (calculateSMA (currentPrices ?st @ [marketData ! k]) shortWindow)
                (calculateSMA (currentPrices ?st @ [marketData ! k]) longWindow)"
    unfolding t by (rule c)
  have c2: "dle (prevShortSMA ?st) (prevLongSMA ?st)" and c3: "\<not> positionOpen ?st"
    by (simp_all add: initial_state_def dle_def)
  have q': "int_of_double (ddiv (portfolioValue ?st) (marketData ! k)) = Some shares"
    using q by (simp add: initial_state_def)
  have "after_days marketData shortWindow longWindow (Suc k)
          = loop_body marketData shortWindow longWindow k ?st"
    by (rule after_days_Suc [OF w k])
  also have "\<dots> = Inr (?st\<lparr>currentPrices := currentPrices ?st @ [marketData ! k],
               sharesOwned := shares,
               portfolioValue := dsub (portfolioValue ?st)
                                   (dmul (double_of_int shares) (marketData ! k)),
               positionOpen := True,
               printed := printed ?st @ [BuySignal (k + 1) (marketData ! k) shares],
               prevShortSMA := calculateSMA (currentPrices ?st @ [marketData ! k]) shortWindow,
               prevLongSMA := calculateSMA (currentPrices ?st @ [marketData ! k]) longWindow\<rparr>)"
    unfolding loop_body_buy [OF g c1 c2 c3] q' by simp
  also have "\<dots> = Inr \<lparr>currentPrices = take (Suc k) marketData,
         portfolioValue = dsub (Fin 10000) (dmul (double_of_int shares) (marketData ! k)),
         sharesOwned = shares, positionOpen = True,
         prevShortSMA = calculateSMA (take (Suc k) marketData) shortWindow,
         prevLongSMA = calculateSMA (take (Suc k) marketData) longWindow,
         printed = [BuySignal (Suc k) (marketData ! k) shares]\<rparr>"
    unfolding t by (simp add: initial_state_def)
  finally show ?thesis .
qed

section \<open>C1: the rising series, end to end\<close>

lemma sum_window:
  "2 * sum_list (map (\<lambda>d. 100 + int d) [a..<a + n]) = int n * (199 + 2 * int a + int n)"
  by (induction n) (simp_all add: algebra_simps)

lemma rising_window:
  assumes "a + w \<le> 200"
  shows "foldl dadd (Fin 0) (drop a (take (a + w) rising_prices))
           = Fin (of_int (sum_list (map (\<lambda>d. 100 + int d) [Suc a..<Suc a + w])))"
proof -
  have 1: "take (a + w) [1..<201] = [1..<1 + (a + w)]"
    using assms by (intro take_upt) simp
  have 2: "drop a [1..<1 + (a + w)] = [Suc a..<Suc a + w]"
    by (simp add: drop_upt)
  have t: "drop a (take (a + w) rising_prices)
          = map (\<lambda>k. Fin (of_int k)) (map (\<lambda>d. 100 + int d) [Suc a..<Suc a + w])"
    unfolding rising_prices_def take_map drop_map 1 2 by (simp add: o_def)
  have b: "\<forall>k \<in> set (map (\<lambda>d. 100 + int d) [Suc a..<Suc a + w]). 0 \<le> k \<and> k \<le> 400"
    using assms by auto
  have l: "(0::int) + 400 * int (length (map (\<lambda>d. 100 + int d) [Suc a..<Suc a + w])) < 2 ^ 53"
    using assms by simp
  show ?thesis
    unfolding t using foldl_dadd_ints [OF b _ l] by simp
qed

lemma rising_sma:
  assumes W: "0 < sint W" "sint W = int w" and a: "a + w \<le> 200"
  shows "calculateSMA (take (a + w) rising_prices) W
    = ddiv (Fin (of_int (sum_list (map (\<lambda>d. 100 + int d) [Suc a..<Suc a + w]))))
           (Fin (of_int (int w)))"
proof -
  have len: "length (take (a + w) rising_prices) = a + w"
    using a by (simp add: rising_prices_def)
  have n: "nat (sint W) = w" using W(2) by simp
  have d: "a + w - w = a" by simp
  have "calculateSMA (take (a + w) rising_prices) W
     = ddiv (foldl dadd (Fin 0) (drop (length (take (a + w) rising_prices) - nat (sint W))
                                   (take (a + w) rising_prices))) (double_of_int W)"
    by (rule calculateSMA_enough [OF W(1)]) (simp only: len n)
  then have "calculateSMA (take (a + w) rising_prices) W
     = ddiv (foldl dadd (Fin 0) (drop a (take (a + w) rising_prices))) (double_of_int W)"
    unfolding len n d .
  then show ?thesis
    unfolding rising_window [OF a] double_of_int_exact W(2) .
qed

lemma rising_short:
  assumes "9 \<le> i" and "i < 200"
  shows "calculateSMA (take (Suc i) rising_prices) 10 = Fin (of_int (2 * int i + 193) / 2)"
proof -
  define a where "a = i - 9"
  have i: "Suc i = a + 10" "int i = int a + 9" using assms by (simp_all add: a_def)
  have a: "a + 10 \<le> 200" using assms by (simp add: a_def)
  have "2 * sum_list (map (\<lambda>d. 100 + int d) [Suc a..<Suc a + 10]) = 2 * (5 * (2 * int i + 193))"
    unfolding sum_window i by simp
  then have s: "sum_list (map (\<lambda>d. 100 + int d) [Suc a..<Suc a + 10]) = 5 * (2 * int i + 193)"
    by linarith
  have k: "\<bar>2 * int i + 193\<bar> < 2 ^ 53" using assms by simp
  have "calculateSMA (take (Suc i) rising_prices) 10
          = ddiv (Fin (of_int (5 * (2 * int i + 193)))) (Fin (of_int (int 10)))"
    unfolding i(1) using rising_sma [of 10 10 a] a s by simp
  also have "\<dots> = fl (of_int (2 * int i + 193) / 2)"
  proof -
    have "(of_int (5 * (2 * int i + 193)) :: rat) / of_int (int 10) = of_int (2 * int i + 193) / 2"
      by (simp add: field_simps)
    moreover have "(of_int (int 10) :: rat) \<noteq> 0" by simp
    ultimately show ?thesis by (simp only: ddiv.simps if_False)
  qed
  also have "\<dots> = Fin (of_int (2 * int i + 193) / 2)" using k by (rule fl_half_int)
  finally show ?thesis .
qed

lemma rising_long:
  assumes "29 \<le> i" and "i < 200"
  shows "calculateSMA (take (Suc i) rising_prices) 30 = Fin (of_int (2 * int i + 173) / 2)"
proof -
  define a where "a = i - 29"
  have i: "Suc i = a + 30" "int i = int a + 29" using assms by (simp_all add: a_def)
  have a: "a + 30 \<le> 200" using assms by (simp add: a_def)
  have "2 * sum_list (map (\<lambda>d. 100 + int d) [Suc a..<Suc a + 30]) = 2 * (15 * (2 * int i + 173))"
    unfolding sum_window i by simp
  then have s: "sum_list (map (\<lambda>d. 100 + int d) [Suc a..<Suc a + 30]) = 15 * (2 * int i + 173)"
    by linarith
  have k: "\<bar>2 * int i + 173\<bar> < 2 ^ 53" using assms by simp
  have "calculateSMA (take (Suc i) rising_prices) 30
          = ddiv (Fin (of_int (15 * (2 * int i + 173)))) (Fin (of_int (int 30)))"
    unfolding i(1) using rising_sma [of 30 30 a] a s by simp
  also have "\<dots> = fl (of_int (2 * int i + 173) / 2)"
  proof -
    have "(of_int (15 * (2 * int i + 173)) :: rat) / of_int (int 30) = of_int (2 * int i + 173) / 2"
      by (simp add: field_simps)
    moreover have "(of_int (int 30) :: rat) \<noteq> 0" by simp
    ultimately show ?thesis by (simp only: ddiv.simps if_False)
  qed
  also have "\<dots> = Fin (of_int (2 * int i + 173) / 2)" using k by (rule fl_half_int)
  finally show ?thesis .
qed

lemma rising_nth: "i < 200 \<Longrightarrow> rising_prices ! i = Fin (of_int (101 + int i))"
  by (simp add: rising_prices_def)

lemma rising_length: "length rising_prices = 200"
  by (simp add: rising_prices_def)

lemma rising_held:
  assumes "30 \<le> i" and "i \<le> 200"
  shows "after_days rising_prices 10 30 i =
    Inr \<lparr>currentPrices = take i rising_prices, portfolioValue = Fin 120, sharesOwned = 76,
         positionOpen = True,
         prevShortSMA = Fin (of_int (2 * int i + 191) / 2),
         prevLongSMA = Fin (of_int (2 * int i + 171) / 2),
         printed = [BuySignal 30 (Fin 130) 76]\<rparr>"
  using assms
proof (induction i rule: dec_induct)
  case base
  let ?st = "initial_state\<lparr>currentPrices := take 29 rising_prices\<rparr>"
  have w: "after_days rising_prices 10 30 29 = Inr ?st"
    by (rule after_days_warmup) (simp_all add: rising_length)
  have g: "\<not> length (currentPrices ?st) + 1 < size_t_of_int 30"
    by (simp add: rising_length size_t_of_int_def)
  have p: "rising_prices ! 29 = Fin 130" using rising_nth [of 29] by simp
  have t: "take 29 rising_prices @ [Fin 130] = take 30 rising_prices"
    using take_Suc_conv_app_nth [of 29 rising_prices] by (simp add: rising_length p)
  have S: "calculateSMA (take 30 rising_prices) 10 = Fin (251 / 2)"
    using rising_short [of 29] by simp
  have L: "calculateSMA (take 30 rising_prices) 30 = Fin (231 / 2)"
    using rising_long [of 29] by simp
  have c1: "dgt (calculateSMA (currentPrices ?st @ [rising_prices ! 29]) 10)
                (calculateSMA (currentPrices ?st @ [rising_prices ! 29]) 30)"
    by (simp add: p t S L dgt_def)
  have c2: "dle (prevShortSMA ?st) (prevLongSMA ?st)" and c3: "\<not> positionOpen ?st"
    by (simp_all add: initial_state_def dle_def)
  have "int_of_double (ddiv (Fin 10000) (Fin 130)) = Some 76" by code_simp
  then have q: "int_of_double (ddiv (portfolioValue ?st) (rising_prices ! 29)) = Some 76"
    by (simp add: initial_state_def p)
  have "dsub (Fin 10000) (dmul (double_of_int 76) (Fin 130)) = Fin 120" by code_simp
  then have c: "dsub (portfolioValue ?st) (dmul (double_of_int 76) (rising_prices ! 29)) = Fin 120"
    by (simp add: initial_state_def p)
  have "after_days rising_prices 10 30 30 = after_days rising_prices 10 30 (Suc 29)"
    by simp
  also have "\<dots> = loop_body rising_prices 10 30 29 ?st"
    by (rule after_days_Suc [OF w]) (simp add: rising_length)
  also have "\<dots> = Inr (?st\<lparr>currentPrices := currentPrices ?st @ [rising_prices ! 29],
               sharesOwned := 76,
               portfolioValue := dsub (portfolioValue ?st)
                                   (dmul (double_of_int 76) (rising_prices ! 29)),
               positionOpen := True,
               printed := printed ?st @ [BuySignal (29 + 1) (rising_prices ! 29) 76],
               prevShortSMA := calculateSMA (currentPrices ?st @ [rising_prices ! 29]) 10,
               prevLongSMA := calculateSMA (currentPrices ?st @ [rising_prices ! 29]) 30\<rparr>)"
    unfolding loop_body_buy [OF g c1 c2 c3] q by simp
  also have "\<dots> = Inr \<lparr>currentPrices = take 30 rising_prices, portfolioValue = Fin 120,
         sharesOwned = 76, positionOpen = True,
         prevShortSMA = Fin (251 / 2), prevLongSMA = Fin (231 / 2),
         printed = [BuySignal 30 (Fin 130) 76]\<rparr>"
    unfolding c by (simp add: initial_state_def p t S L)
  finally show ?case by simp
next
  case (step i)
  let ?st = "\<lparr>currentPrices = take i rising_prices, portfolioValue = Fin 120, sharesOwned = 76,
         positionOpen = True,
         prevShortSMA = Fin (of_int (2 * int i + 191) / 2),
         prevLongSMA = Fin (of_int (2 * int i + 171) / 2),
         printed = [BuySignal 30 (Fin 130) 76]\<rparr>"
  have i: "29 \<le> i" "9 \<le> i" "i < 200" using step by simp_all
  have ih: "after_days rising_prices 10 30 i = Inr ?st" using step by simp
  have g: "\<not> length (currentPrices ?st) + 1 < size_t_of_int 30"
    using i by (simp add: rising_length size_t_of_int_def)
  have t: "take i rising_prices @ [rising_prices ! i] = take (Suc i) rising_prices"
    using i by (simp add: take_Suc_conv_app_nth rising_length)
  note S = rising_short [OF i(2,3)] and L = rising_long [OF i(1,3)]
  have nb: "\<not> (dgt (calculateSMA (currentPrices ?st @ [rising_prices ! i]) 10)
               (calculateSMA (currentPrices ?st @ [rising_prices ! i]) 30)
            \<and> dle (prevShortSMA ?st) (prevLongSMA ?st) \<and> \<not> positionOpen ?st)"
    by simp
  have ns: "\<not> (dlt (calculateSMA (currentPrices ?st @ [rising_prices ! i]) 10)
               (calculateSMA (currentPrices ?st @ [rising_prices ! i]) 30)
            \<and> dge (prevShortSMA ?st) (prevLongSMA ?st) \<and> positionOpen ?st)"
    by (simp add: t S L)
  have "after_days rising_prices 10 30 (Suc i) = loop_body rising_prices 10 30 i ?st"
    using ih i by (simp add: rising_length)
  also have "\<dots> = Inr (?st\<lparr>currentPrices := currentPrices ?st @ [rising_prices ! i],
           prevShortSMA := calculateSMA (currentPrices ?st @ [rising_prices ! i]) 10,
           prevLongSMA := calculateSMA (currentPrices ?st @ [rising_prices ! i]) 30\<rparr>)"
    by (rule loop_body_hold [OF g nb ns])
  also have "\<dots> = Inr \<lparr>currentPrices = take (Suc i) rising_prices, portfolioValue = Fin 120,
         sharesOwned = 76, positionOpen = True,
         prevShortSMA = Fin (of_int (2 * int (Suc i) + 191) / 2),
         prevLongSMA = Fin (of_int (2 * int (Suc i) + 171) / 2),
         printed = [BuySignal 30 (Fin 130) 76]\<rparr>"
    by (simp add: t S L algebra_simps)
  finally show ?case .
qed

text \<open>
  Claim C1. On the rising series (price \<open>100 + d\<close> on day \<open>d\<close>, 200 days) with windows 10 and
  30 the simulation prints exactly one BUY, on day 30, the first day with 30 prices, and no
  SELL; the shares are liquidated at the day-200 price and the final value is
  \<open>floor(10000 / price[30]) * price[200] + (10000 - floor(10000 / price[30]) * price[30])\<close>,
  that is 22920.
\<close>

theorem rising_series_run:
  "runTradingSimulation rising_prices 10 30 =
     Inr \<lparr>currentPrices = rising_prices, portfolioValue = Fin 22920, sharesOwned = 76,
          positionOpen = True, prevShortSMA = Fin (591 / 2), prevLongSMA = Fin (571 / 2),
          printed = [BuySignal 30 (Fin 130) 76, EndOfSimulation 76 (Fin 300),
                     FinalValue (Fin 22920)]\<rparr>
   \<and> rising_prices ! 29 = Fin 130 \<and> last rising_prices = Fin 300
   \<and> (22920 :: rat) = of_int \<lfloor>10000 / 130 :: rat\<rfloor> * 300
                        + (10000 - of_int \<lfloor>10000 / 130 :: rat\<rfloor> * 130)"
proof -
  have r: "after_days rising_prices 10 30 (length rising_prices) =
    Inr \<lparr>currentPrices = take 200 rising_prices, portfolioValue = Fin 120, sharesOwned = 76,
         positionOpen = True, prevShortSMA = Fin (591 / 2), prevLongSMA = Fin (571 / 2),
         printed = [BuySignal 30 (Fin 130) 76]\<rparr>"
    using rising_held [of 200] by (simp add: rising_length)
  have l: "last rising_prices = Fin 300"
    by (simp add: rising_prices_def last_map)
  have ne: "rising_prices \<noteq> []" using rising_length by auto
  have c: "dadd (Fin 120) (dmul (double_of_int 76) (Fin 300)) = Fin 22920" by code_simp
  have "\<lfloor>10000 / 130 :: rat\<rfloor> = 76" by (rule floor_unique) simp_all
  then have f: "(22920 :: rat) = of_int \<lfloor>10000 / 130 :: rat\<rfloor> * 300
                        + (10000 - of_int \<lfloor>10000 / 130 :: rat\<rfloor> * 130)"
    by simp
  have p: "rising_prices ! 29 = Fin 130" using rising_nth [of 29] by simp
  have "runTradingSimulation rising_prices 10 30 =
     Inr \<lparr>currentPrices = rising_prices, portfolioValue = Fin 22920, sharesOwned = 76,
          positionOpen = True, prevShortSMA = Fin (591 / 2), prevLongSMA = Fin (571 / 2),
          printed = [BuySignal 30 (Fin 130) 76, EndOfSimulation 76 (Fin 300),
                     FinalValue (Fin 22920)]\<rparr>"
    unfolding runTradingSimulation_def r
    by (simp add: ne l c rising_length Let_def)
  with p l f show ?thesis by blast
qed

section \<open>C2: the moving average\<close>

text \<open>
  Claim C2. For every price sequence and every \<open>period > 0\<close>: when the sequence has at
  least \<open>period\<close> elements, \<open>calculateSMA\<close> returns the mean of its last \<open>period\<close>
  elements, computed as the program computes it (the elements summed from left to right
  in \<^verbatim>\<open>double\<close> arithmetic starting from 0.0, the sum divided once by \<open>period\<close>); when it has
  fewer, the result is exactly the sentinel 0.0.
\<close>

theorem calculateSMA_spec:
  assumes "0 < sint period"
  shows "calculateSMA prices period =
    (if nat (sint period) \<le> length prices
     then ddiv (foldl dadd (Fin 0) (drop (length prices - nat (sint period)) prices))
            (double_of_int period)
     else Fin 0)"
proof -
  have s: "size_t_of_int period = nat (sint period)"
    using assms by (simp add: size_t_of_int_nonneg)
  show ?thesis
  proof (cases "nat (sint period) \<le> length prices")
    case True
    have n: "nat (int (length prices) - sint period) = length prices - nat (sint period)"
      using assms by simp
    have t: "length prices - (length prices - nat (sint period)) = nat (sint period)"
      using True by simp
    show ?thesis using True
      by (simp add: calculateSMA_def s accumulate_foldl n t)
  next
    case False
    then show ?thesis by (simp add: calculateSMA_def s)
  qed
qed

theorem calculateSMA_spec_witness:
  "calculateSMA [Fin 1, Fin 2, Fin 4] 2 = Fin 3 \<and> calculateSMA [Fin 4] 2 = Fin 0"
proof -
  have p: "0 < sint (2 :: int32)" by simp
  have a: "ddiv (foldl dadd (Fin 0) (drop (length [Fin 1, Fin 2, Fin 4] - nat (sint (2::int32))) [Fin 1, Fin 2, Fin 4]))
            (double_of_int 2) = Fin 3"
    by code_simp
  show ?thesis
    using calculateSMA_spec [OF p, of "[Fin 1, Fin 2, Fin 4]"]
      calculateSMA_spec [OF p, of "[Fin 4]"] a
    by simp
qed

section \<open>C3, C4: the crossover rules\<close>

text \<open>
  Claim C3. On a warmed-up day (day \<open>i + 1\<close>, with at least \<open>longWindow\<close> prices observed)
  the BUY event is printed if and only if \<open>shortSMA > longSMA\<close>, \<open>prevShortSMA \<le> prevLongSMA\<close>
  and no position is open; when it is printed the position is open afterwards, the shares
  bought are the truncated quotient of cash by the day's price and their cost has been
  deducted. The day's step is defined unless the rule fires and that quotient does not
  convert to \<^verbatim>\<open>int\<close>.
\<close>

theorem buy_signal_iff:
  assumes "0 \<le> sint longWindow" and "i < length marketData"
    and "sint longWindow \<le> int (Suc i)"
    and "after_days marketData shortWindow longWindow i = Inr st"
  shows "((\<exists>st'. after_days marketData shortWindow longWindow (Suc i) = Inr st') \<longleftrightarrow>
          \<not> (dgt (calculateSMA (take (Suc i) marketData) shortWindow)
                 (calculateSMA (take (Suc i) marketData) longWindow)
              \<and> dle (prevShortSMA st) (prevLongSMA st) \<and> \<not> positionOpen st
              \<and> int_of_double (ddiv (portfolioValue st) (marketData ! i)) = None))
       \<and> (\<forall>st'. after_days marketData shortWindow longWindow (Suc i) = Inr st' \<longrightarrow>
            ((\<exists>n. printed st' = printed st @ [BuySignal (Suc i) (marketData ! i) n]) \<longleftrightarrow>
               dgt (calculateSMA (take (Suc i) marketData) shortWindow)
                   (calculateSMA (take (Suc i) marketData) longWindow)
               \<and> dle (prevShortSMA st) (prevLongSMA st) \<and> \<not> positionOpen st)
          \<and> ((\<exists>n. printed st' = printed st @ [BuySignal (Suc i) (marketData ! i) n]) \<longrightarrow>
               positionOpen st'
               \<and> int_of_double (ddiv (portfolioValue st) (marketData ! i)) = Some (sharesOwned st')
               \<and> portfolioValue st' = dsub (portfolioValue st)
                    (dmul (double_of_int (sharesOwned st')) (marketData ! i))
               \<and> printed st' = printed st
                    @ [BuySignal (Suc i) (marketData ! i) (sharesOwned st')]))"
proof -
  note d = day_facts [OF assms(2) assms(4)]
  have g: "\<not> length (currentPrices st) + 1 < size_t_of_int longWindow"
    using assms(1,3) d(3) by (simp add: warm_guard)
  show ?thesis
  proof (cases rule: loop_body_cases [where st = st and longWindow = longWindow
        and marketData = marketData and i = i and shortWindow = shortWindow])
    case warmup
    with g show ?thesis by simp
  next
    case buy
    show ?thesis
      using buy(2-4) d(2)
      unfolding d(1) loop_body_buy [OF buy]
      by (auto split: option.splits)
  next
    case sell
    show ?thesis
      using sell(2-4) d(2)
      unfolding d(1) loop_body_sell [OF sell]
      by auto
  next
    case hold
    show ?thesis
      using hold(2,3) d(2)
      unfolding d(1) loop_body_hold [OF hold]
      by auto
  qed
qed

theorem buy_signal_iff_witness:
  "\<exists>st'. after_days [Fin 1, Fin 2] 1 2 2 = Inr st' \<and> positionOpen st'
      \<and> printed st' = [BuySignal 2 (Fin 2) 5000]"
proof -
  define st where "st = initial_state\<lparr>currentPrices := [Fin 1]\<rparr>"
  have h1: "0 \<le> sint (2 :: int32)" by simp
  have h2: "1 < length [Fin 1, Fin 2]" by simp
  have h3: "sint (2 :: int32) \<le> int (Suc 1)" by simp
  have h4: "after_days [Fin 1, Fin 2] 1 2 1 = Inr st"
    unfolding st_def by code_simp
  have c1: "dgt (calculateSMA (take (Suc 1) [Fin 1, Fin 2]) 1)
                (calculateSMA (take (Suc 1) [Fin 1, Fin 2]) 2)"
    by code_simp
  have c2: "dle (prevShortSMA st) (prevLongSMA st)" "\<not> positionOpen st" "printed st = []"
    "portfolioValue st = Fin 10000"
    unfolding st_def by (simp_all add: initial_state_def dle_def)
  have c3: "int_of_double (ddiv (Fin 10000) ([Fin 1, Fin 2] ! 1)) = Some 5000"
    by code_simp
  show ?thesis
    using buy_signal_iff [OF h1 h2 h3 h4] c1 c2 c3
    by (auto simp: numeral_2_eq_2)
qed

text \<open>
  Claim C4. On a warmed-up day the SELL event is printed if and only if
  \<open>shortSMA < longSMA\<close>, \<open>prevShortSMA \<ge> prevLongSMA\<close> and a position is open; when it is
  printed, cash has grown by \<open>sharesOwned * price\<close> (the \<^verbatim>\<open>double\<close> product, added in \<^verbatim>\<open>double\<close>
  arithmetic), the share count is 0 and the position is closed. A SELL is always defined.
\<close>

theorem sell_signal_iff:
  assumes "0 \<le> sint longWindow" and "i < length marketData"
    and "sint longWindow \<le> int (Suc i)"
    and "after_days marketData shortWindow longWindow i = Inr st"
  shows "(dlt (calculateSMA (take (Suc i) marketData) shortWindow)
              (calculateSMA (take (Suc i) marketData) longWindow)
            \<and> dge (prevShortSMA st) (prevLongSMA st) \<and> positionOpen st \<longrightarrow>
          (\<exists>st'. after_days marketData shortWindow longWindow (Suc i) = Inr st'))
       \<and> (\<forall>st'. after_days marketData shortWindow longWindow (Suc i) = Inr st' \<longrightarrow>
            ((\<exists>n v. printed st' = printed st @ [SellSignal (Suc i) (marketData ! i) n v]) \<longleftrightarrow>
               dlt (calculateSMA (take (Suc i) marketData) shortWindow)
                   (calculateSMA (take (Suc i) marketData) longWindow)
               \<and> dge (prevShortSMA st) (prevLongSMA st) \<and> positionOpen st)
          \<and> ((\<exists>n v. printed st' = printed st @ [SellSignal (Suc i) (marketData ! i) n v]) \<longrightarrow>
               portfolioValue st' = dadd (portfolioValue st)
                    (dmul (double_of_int (sharesOwned st)) (marketData ! i))
               \<and> sharesOwned st' = 0 \<and> \<not> positionOpen st'
               \<and> printed st' = printed st
                    @ [SellSignal (Suc i) (marketData ! i) (sharesOwned st) (portfolioValue st')]))"
proof -
  note d = day_facts [OF assms(2) assms(4)]
  have g: "\<not> length (currentPrices st) + 1 < size_t_of_int longWindow"
    using assms(1,3) d(3) by (simp add: warm_guard)
  show ?thesis
  proof (cases rule: loop_body_cases [where st = st and longWindow = longWindow
        and marketData = marketData and i = i and shortWindow = shortWindow])
    case warmup
    with g show ?thesis by simp
  next
    case buy
    show ?thesis
      using buy(2-4) d(2)
      unfolding d(1) loop_body_buy [OF buy]
      by (auto split: option.splits)
  next
    case sell
    show ?thesis
      using sell(2-4) d(2)
      unfolding d(1) loop_body_sell [OF sell]
      by auto
  next
    case hold
    show ?thesis
      using hold(2,3) d(2)
      unfolding d(1) loop_body_hold [OF hold]
      by auto
  qed
qed

theorem sell_signal_iff_witness:
  "\<exists>st'. after_days [Fin 1, Fin 2, Fin 1] 1 2 3 = Inr st' \<and> portfolioValue st' = Fin 5000
      \<and> sharesOwned st' = 0 \<and> \<not> positionOpen st'
      \<and> printed st' = [BuySignal 2 (Fin 2) 5000, SellSignal 3 (Fin 1) 5000 (Fin 5000)]"
proof -
  define st where "st = \<lparr>currentPrices = [Fin 1, Fin 2], portfolioValue = Fin 0,
    sharesOwned = 5000, positionOpen = True, prevShortSMA = Fin 2, prevLongSMA = Fin (3 / 2),
    printed = [BuySignal 2 (Fin 2) 5000]\<rparr>"
  have h1: "0 \<le> sint (2 :: int32)" by simp
  have h2: "2 < length [Fin 1, Fin 2, Fin 1]" by simp
  have h3: "sint (2 :: int32) \<le> int (Suc 2)" by simp
  have h4: "after_days [Fin 1, Fin 2, Fin 1] 1 2 2 = Inr st"
    unfolding st_def by code_simp
  have c1: "dlt (calculateSMA (take (Suc 2) [Fin 1, Fin 2, Fin 1]) 1)
                (calculateSMA (take (Suc 2) [Fin 1, Fin 2, Fin 1]) 2)"
    by code_simp
  have c2: "dge (prevShortSMA st) (prevLongSMA st)" "positionOpen st"
    "printed st = [BuySignal 2 (Fin 2) 5000]" "sharesOwned st = 5000"
    "portfolioValue st = Fin 0"
    unfolding st_def by (simp_all add: dge_def dle_def)
  have c3: "dadd (Fin 0) (dmul (double_of_int 5000) ([Fin 1, Fin 2, Fin 1] ! 2)) = Fin 5000"
    by code_simp
  show ?thesis
    using sell_signal_iff [OF h1 h2 h3 h4] c1 c2 c3
    by (auto simp: numeral_3_eq_3)
qed

section \<open>C5: cash after a purchase\<close>

text \<open>
  Claim C5 says that cash never goes negative when all prices are positive. The quotient
  \<open>10000 / price\<close> is rounded before it is truncated: at the last price of this series it
  rounds up to exactly 132, the cost \<open>132 * price\<close> rounds to the binary64 value just above
  10000, and the cash after the purchase on day 30 is \<open>- 2^-39\<close>. The last conjunct says that
  the price is a binary64 value.
\<close>

theorem cash_negative_after_buy:
  "after_days overspend_prices 10 30 30 =
     Inr \<lparr>currentPrices = overspend_prices, portfolioValue = Fin (- (1 / 549755813888)),
          sharesOwned = 132, positionOpen = True,
          prevShortSMA = Fin (4966327429993317 / 70368744177664),
          prevLongSMA = Fin (2469658602477713 / 35184372088832),
          printed = [BuySignal 30 (Fin (5330965468004849 / 70368744177664)) 132]\<rparr>
   \<and> dlt (Fin (- (1 / 549755813888))) (Fin 0)
   \<and> fl (5330965468004849 / 70368744177664) = Fin (5330965468004849 / 70368744177664)"
proof -
  have len: "length overspend_prices = 30" by (simp add: overspend_prices_def)
  have n: "overspend_prices ! 29 = Fin (5330965468004849 / 70368744177664)"
    by (simp add: overspend_prices_def nth_append)
  have t: "take (Suc 29) overspend_prices = overspend_prices" using len by simp
  have S: "calculateSMA overspend_prices 10 = Fin (4966327429993317 / 70368744177664)"
    unfolding overspend_prices_def by code_simp
  have L: "calculateSMA overspend_prices 30 = Fin (2469658602477713 / 35184372088832)"
    unfolding overspend_prices_def by code_simp
  have q: "int_of_double (ddiv (Fin 10000) (overspend_prices ! 29)) = Some 132"
    unfolding n by code_simp
  have c: "dsub (Fin 10000) (dmul (double_of_int 132) (Fin (5330965468004849 / 70368744177664)))
             = Fin (- (1 / 549755813888))" by code_simp
  have r: "fl (5330965468004849 / 70368744177664) = Fin (5330965468004849 / 70368744177664)"
    by code_simp
  have "after_days overspend_prices 10 30 (Suc 29) =
     Inr \<lparr>currentPrices = take (Suc 29) overspend_prices,
         portfolioValue = dsub (Fin 10000) (dmul (double_of_int 132) (overspend_prices ! 29)),
         sharesOwned = 132, positionOpen = True,
         prevShortSMA = calculateSMA (take (Suc 29) overspend_prices) 10,
         prevLongSMA = calculateSMA (take (Suc 29) overspend_prices) 30,
         printed = [BuySignal (Suc 29) (overspend_prices ! 29) 132]\<rparr>"
    by (rule first_day_buy) (simp_all add: len q t S L dgt_def)
  then have "after_days overspend_prices 10 30 30 =
     Inr \<lparr>currentPrices = overspend_prices, portfolioValue = Fin (- (1 / 549755813888)),
          sharesOwned = 132, positionOpen = True,
          prevShortSMA = Fin (4966327429993317 / 70368744177664),
          prevLongSMA = Fin (2469658602477713 / 35184372088832),
          printed = [BuySignal 30 (Fin (5330965468004849 / 70368744177664)) 132]\<rparr>"
    unfolding t n S L c by simp
  with r show ?thesis by simp
qed

section \<open>C6: invalid configurations\<close>

lemma size_t_of_int_neg:
  assumes "sint n < 0"
  shows "2 ^ 63 \<le> size_t_of_int (n::int32)"
proof -
  have "- (2 ^ 31) \<le> sint n" using sint_ge [of n] by simp
  then have "sint n mod 2 ^ 64 = sint n + 2 ^ 64"
    using assms by (intro mod_pos_pos_trivial [THEN trans [OF mod_add_self2 [symmetric]]]) simp_all
  then show ?thesis
    using \<open>- (2 ^ 31) \<le> sint n\<close> by (simp add: size_t_of_int_def nat_le_iff)
qed

lemma accumulate_empty: "accumulate xs n n init = init"
  by (subst accumulate.simps) simp

lemma calculateSMA_zero: "calculateSMA prices 0 = NaN"
proof -
  have "double_of_int 0 = Fin 0" by (simp add: double_of_int_def fl_def)
  then show ?thesis
    by (simp add: calculateSMA_def size_t_of_int_def accumulate_empty)
qed

lemma calculateSMA_negative:
  assumes "sint period < 0" and "length prices < 2 ^ 63"
  shows "calculateSMA prices period = Fin 0"
  using size_t_of_int_neg [OF assms(1)] assms(2) by (simp add: calculateSMA_def)

lemma dlt_NaN [simp]: "\<not> dlt a NaN" "\<not> dlt NaN a"
  by (cases a; simp)+

lemma no_trade_when_long_window_invalid:
  assumes "sint longWindow \<le> 0" and "length marketData < 2 ^ 63"
  shows "i \<le> length marketData \<Longrightarrow>
    \<exists>st. after_days marketData shortWindow longWindow i = Inr st
       \<and> portfolioValue st = Fin 10000 \<and> sharesOwned st = 0 \<and> \<not> positionOpen st
       \<and> printed st = [] \<and> length (currentPrices st) = i"
proof (induction i)
  case 0
  then show ?case by (simp add: initial_state_def)
next
  case (Suc i)
  then obtain st where st: "after_days marketData shortWindow longWindow i = Inr st"
    "portfolioValue st = Fin 10000" "sharesOwned st = 0" "\<not> positionOpen st"
    "printed st = []" "length (currentPrices st) = i"
    by auto
  have lt: "i < length marketData" using Suc.prems by simp
  note step = after_days_Suc [OF st(1) lt]
  show ?case
  proof (cases "sint longWindow < 0")
    case True
    have "length (currentPrices st) + 1 < size_t_of_int longWindow"
      using size_t_of_int_neg [OF True] st(6) lt assms(2) by simp
    then show ?thesis
      unfolding step by (simp add: loop_body_warmup st)
  next
    case False
    then have z: "longWindow = 0" using assms(1) by (simp add: signed_eq_0_iff)
    have g: "\<not> length (currentPrices st) + 1 < size_t_of_int longWindow"
      by (simp add: z size_t_of_int_def)
    have "loop_body marketData shortWindow longWindow i st =
       Inr (st\<lparr>currentPrices := currentPrices st @ [marketData ! i],
           prevShortSMA := calculateSMA (currentPrices st @ [marketData ! i]) shortWindow,
           prevLongSMA := calculateSMA (currentPrices st @ [marketData ! i]) longWindow\<rparr>)"
      by (rule loop_body_hold [OF g]) (simp_all add: z calculateSMA_zero dgt_def)
    then show ?thesis
      unfolding step by (simp add: st)
  qed
qed

text \<open>
  Claim C6 says that a non-positive period or window is rejected before the simulation
  starts. The program has no such check. What holds instead: \<open>calculateSMA\<close> returns 0.0
  for a negative period (the comparison with \<^verbatim>\<open>size()\<close> is unsigned) and NaN for period 0,
  and with \<open>longWindow \<le> 0\<close> the simulation runs to its end without an error and without a
  trade, reporting the starting cash as the final value.
\<close>

theorem invalid_configuration_not_rejected:
  "(sint period < 0 \<and> length prices < 2 ^ 63 \<longrightarrow> calculateSMA prices period = Fin 0)
   \<and> calculateSMA prices 0 = NaN
   \<and> (sint longWindow \<le> 0 \<and> length marketData < 2 ^ 63 \<longrightarrow>
        (\<exists>st. runTradingSimulation marketData shortWindow longWindow = Inr st
           \<and> portfolioValue st = Fin 10000 \<and> sharesOwned st = 0 \<and> \<not> positionOpen st
           \<and> printed st = [FinalValue (Fin 10000)]))"
proof -
  have "\<exists>st. runTradingSimulation marketData shortWindow longWindow = Inr st
           \<and> portfolioValue st = Fin 10000 \<and> sharesOwned st = 0 \<and> \<not> positionOpen st
           \<and> printed st = [FinalValue (Fin 10000)]"
    if "sint longWindow \<le> 0" "length marketData < 2 ^ 63"
    using no_trade_when_long_window_invalid [OF that, of "length marketData" shortWindow]
    by (auto simp: runTradingSimulation_def)
  then show ?thesis
    by (auto simp: calculateSMA_zero calculateSMA_negative)
qed

theorem invalid_configuration_not_rejected_witness:
  "calculateSMA [Fin 100, Fin 101] (- 1) = Fin 0
   \<and> (\<exists>st. runTradingSimulation [Fin 100, Fin 101] 10 (- 1) = Inr st
           \<and> portfolioValue st = Fin 10000 \<and> printed st = [FinalValue (Fin 10000)])"
proof -
  have a: "sint (- 1 :: int32) < 0" "sint (- 1 :: int32) \<le> 0" by simp_all
  have b: "length [Fin 100, Fin 101] < 2 ^ 63" by simp
  show ?thesis
    using invalid_configuration_not_rejected
            [of "- 1" "[Fin 100, Fin 101]" "- 1" "[Fin 100, Fin 101]" 10] a b
    by blast
qed

text \<open>With both windows 0 the run completes and reports 10000; no error is raised.\<close>

theorem invalid_configuration_runs:
  "runTradingSimulation [Fin 100, Fin 101] 0 0 =
     Inr \<lparr>currentPrices = [Fin 100, Fin 101], portfolioValue = Fin 10000, sharesOwned = 0,
          positionOpen = False, prevShortSMA = NaN, prevLongSMA = NaN,
          printed = [FinalValue (Fin 10000)]\<rparr>"
  by code_simp

section \<open>C7: position and share count\<close>

text \<open>
  Claim C7 says that a position is open exactly when the share count is positive. When the
  price on the day of a BUY exceeds the cash, the truncated quotient is 0 and the program
  still opens the position: after day 30 of this run \<open>positionOpen\<close> holds with
  \<open>sharesOwned = 0\<close>.
\<close>

theorem position_open_with_zero_shares:
  "after_days costly_prices 10 30 30 =
     Inr \<lparr>currentPrices = costly_prices, portfolioValue = Fin 10000, sharesOwned = 0,
          positionOpen = True, prevShortSMA = Fin (4400025632033997 / 2199023255552), prevLongSMA = Fin (5872564904726801 / 8796093022208),
          printed = [BuySignal 30 (Fin 20000) 0]\<rparr>"
proof -
  have len: "length costly_prices = 30" by (simp add: costly_prices_def)
  have n: "costly_prices ! 29 = Fin 20000" by (simp add: costly_prices_def nth_append)
  have t: "take (Suc 29) costly_prices = costly_prices" using len by simp
  have S: "calculateSMA costly_prices 10 = Fin (4400025632033997 / 2199023255552)"
    unfolding costly_prices_def by code_simp
  have L: "calculateSMA costly_prices 30 = Fin (5872564904726801 / 8796093022208)"
    unfolding costly_prices_def by code_simp
  have q: "int_of_double (ddiv (Fin 10000) (costly_prices ! 29)) = Some 0"
    unfolding n by code_simp
  have c: "dsub (Fin 10000) (dmul (double_of_int 0) (Fin 20000)) = Fin 10000" by code_simp
  have "after_days costly_prices 10 30 (Suc 29) =
     Inr \<lparr>currentPrices = take (Suc 29) costly_prices,
         portfolioValue = dsub (Fin 10000) (dmul (double_of_int 0) (costly_prices ! 29)),
         sharesOwned = 0, positionOpen = True,
         prevShortSMA = calculateSMA (take (Suc 29) costly_prices) 10,
         prevLongSMA = calculateSMA (take (Suc 29) costly_prices) 30,
         printed = [BuySignal (Suc 29) (costly_prices ! 29) 0]\<rparr>"
    by (rule first_day_buy) (simp_all add: len q t S L dgt_def)
  then show ?thesis unfolding t n S L c by simp
qed

section \<open>C8: warm-up and the previous averages\<close>

text \<open>
  Claim C8. While fewer than \<open>longWindow\<close> prices have been observed a day changes neither
  \<open>prevShortSMA\<close>, \<open>prevLongSMA\<close>, \<open>positionOpen\<close>, the portfolio nor the printed events;
  from then on every day that completes sets \<open>prevShortSMA\<close> and \<open>prevLongSMA\<close> to that day's
  averages, whatever the signal, and a day can only fail to complete in the BUY branch.
\<close>

theorem warmup_inert_then_prev_updated:
  assumes "0 \<le> sint longWindow" and "i < length marketData"
    and "after_days marketData shortWindow longWindow i = Inr st"
  shows "(int (Suc i) < sint longWindow \<longrightarrow>
            (\<exists>st'. after_days marketData shortWindow longWindow (Suc i) = Inr st'
               \<and> prevShortSMA st' = prevShortSMA st \<and> prevLongSMA st' = prevLongSMA st
               \<and> positionOpen st' = positionOpen st \<and> printed st' = printed st
               \<and> sharesOwned st' = sharesOwned st \<and> portfolioValue st' = portfolioValue st))
       \<and> (sint longWindow \<le> int (Suc i) \<longrightarrow>
            (case after_days marketData shortWindow longWindow (Suc i) of
               Inr st' \<Rightarrow>
                 prevShortSMA st' = calculateSMA (take (Suc i) marketData) shortWindow
                 \<and> prevLongSMA st' = calculateSMA (take (Suc i) marketData) longWindow
             | Inl e \<Rightarrow>
                 int_of_double (ddiv (portfolioValue st) (marketData ! i)) = None
                 \<and> dgt (calculateSMA (take (Suc i) marketData) shortWindow)
                       (calculateSMA (take (Suc i) marketData) longWindow)
                 \<and> dle (prevShortSMA st) (prevLongSMA st) \<and> \<not> positionOpen st))"
proof -
  note d = day_facts [OF assms(2) assms(3)]
  have g: "(length (currentPrices st) + 1 < size_t_of_int longWindow)
             = (int (Suc i) < sint longWindow)"
    using assms(1) d(3) by (simp add: warm_guard)
  show ?thesis
  proof (cases rule: loop_body_cases [where st = st and longWindow = longWindow
        and marketData = marketData and i = i and shortWindow = shortWindow])
    case warmup
    then show ?thesis using g unfolding d(1) by (simp add: loop_body_warmup)
  next
    case buy
    show ?thesis
      using buy g d(2)
      unfolding d(1) loop_body_buy [OF buy]
      by (auto split: option.splits)
  next
    case sell
    show ?thesis
      using sell g d(2)
      unfolding d(1) loop_body_sell [OF sell]
      by auto
  next
    case hold
    show ?thesis
      using hold g d(2)
      unfolding d(1) loop_body_hold [OF hold]
      by auto
  qed
qed

theorem warmup_inert_then_prev_updated_witness:
  "(\<exists>st'. after_days [Fin 1, Fin 2] 1 2 1 = Inr st' \<and> prevShortSMA st' = Fin 0
       \<and> prevLongSMA st' = Fin 0 \<and> \<not> positionOpen st' \<and> printed st' = [])
   \<and> (\<exists>st'. after_days [Fin 1, Fin 2] 1 2 2 = Inr st' \<and> prevShortSMA st' = Fin 2
       \<and> prevLongSMA st' = Fin (3 / 2))"
proof -
  define st where "st = initial_state\<lparr>currentPrices := [Fin 1]\<rparr>"
  have h1: "0 \<le> sint (2 :: int32)" by simp
  have a0: "0 < length [Fin 1, Fin 2]" and a1: "1 < length [Fin 1, Fin 2]" by simp_all
  have s0: "after_days [Fin 1, Fin 2] 1 2 0 = Inr initial_state" by simp
  have s1: "after_days [Fin 1, Fin 2] 1 2 1 = Inr st"
    unfolding st_def by code_simp
  have w: "int (Suc 0) < sint (2 :: int32)" "sint (2 :: int32) \<le> int (Suc 1)" by simp_all
  have c1: "calculateSMA (take (Suc 1) [Fin 1, Fin 2]) 1 = Fin 2"
    "calculateSMA (take (Suc 1) [Fin 1, Fin 2]) 2 = Fin (3 / 2)"
    by code_simp+
  have c3: "int_of_double (ddiv (portfolioValue st) ([Fin 1, Fin 2] ! 1)) = Some 5000"
    unfolding st_def initial_state_def by code_simp
  have first: "\<exists>st'. after_days [Fin 1, Fin 2] 1 2 1 = Inr st' \<and> prevShortSMA st' = Fin 0
       \<and> prevLongSMA st' = Fin 0 \<and> \<not> positionOpen st' \<and> printed st' = []"
    using warmup_inert_then_prev_updated [OF h1 a0 s0] w(1)
    by (auto simp: initial_state_def)
  have second: "\<exists>st'. after_days [Fin 1, Fin 2] 1 2 2 = Inr st' \<and> prevShortSMA st' = Fin 2
       \<and> prevLongSMA st' = Fin (3 / 2)"
    using warmup_inert_then_prev_updated [OF h1 a1 s1] w(2) c1 c3
    by (auto simp: numeral_2_eq_2 split: sum.splits)
  from first second show ?thesis by blast
qed

section \<open>C9: reproducibility\<close>

text \<open>
  An iteration of the loop has at most one outcome, and so has the loop: the conditions of
  the branches exclude each other and each statement computes one value.
\<close>

lemma iteration_deterministic:
  assumes "iteration marketData shortWindow longWindow i st a"
    and "iteration marketData shortWindow longWindow i st b"
  shows "a = b"
  using assms by (auto elim!: iteration.cases)

lemma loop_reaches_deterministic:
  assumes "loop_reaches marketData shortWindow longWindow i a"
    and "loop_reaches marketData shortWindow longWindow i b"
  shows "a = b"
  using assms
proof (induction arbitrary: b rule: loop_reaches.induct)
  case start
  then show ?case by (auto elim: loop_reaches.cases)
next
  case (next_day i st st')
  from next_day.prems obtain s where s: "loop_reaches marketData shortWindow longWindow i s"
    and b: "iteration marketData shortWindow longWindow i s b"
    by (auto elim: loop_reaches.cases)
  have "st = s" using s by (rule next_day.IH)
  with b next_day.hyps(3) show ?case by (auto intro: iteration_deterministic)
qed

text \<open>
  The relation and the function describe the same executions: a state is reached by the
  relation exactly when the function returns it.
\<close>

lemma iteration_loop_body:
  "iteration marketData shortWindow longWindow i st st'
     \<longleftrightarrow> loop_body marketData shortWindow longWindow i st = Inr st'"
proof
  assume "iteration marketData shortWindow longWindow i st st'"
  then show "loop_body marketData shortWindow longWindow i st = Inr st'"
    by cases (auto simp: loop_body_def Let_def)
next
  assume r: "loop_body marketData shortWindow longWindow i st = Inr st'"
  show "iteration marketData shortWindow longWindow i st st'"
  proof (cases rule: loop_body_cases [where st = st and longWindow = longWindow
        and marketData = marketData and i = i and shortWindow = shortWindow])
    case warmup
    then show ?thesis
      using r by (auto simp: loop_body_warmup intro: iteration.warm_up)
  next
    case buy
    from r obtain n where n: "int_of_double (ddiv (portfolioValue st) (marketData ! i)) = Some n"
      unfolding loop_body_buy [OF buy] by (auto split: option.splits)
    have "iteration marketData shortWindow longWindow i st
           (st\<lparr>currentPrices := currentPrices st @ [marketData ! i], sharesOwned := n,
               portfolioValue := dsub (portfolioValue st)
                                   (dmul (double_of_int n) (marketData ! i)),
               positionOpen := True,
               printed := printed st @ [BuySignal (i + 1) (marketData ! i) n],
               prevShortSMA := calculateSMA (currentPrices st @ [marketData ! i]) shortWindow,
               prevLongSMA := calculateSMA (currentPrices st @ [marketData ! i]) longWindow\<rparr>)"
      using buy n by (intro iteration.buy) simp_all
    then show ?thesis using r unfolding loop_body_buy [OF buy] n by simp
  next
    case sell
    have "iteration marketData shortWindow longWindow i st
           (st\<lparr>currentPrices := currentPrices st @ [marketData ! i],
               portfolioValue := dadd (portfolioValue st)
                                   (dmul (double_of_int (sharesOwned st)) (marketData ! i)),
               printed := printed st @ [SellSignal (i + 1) (marketData ! i) (sharesOwned st)
                           (dadd (portfolioValue st)
                              (dmul (double_of_int (sharesOwned st)) (marketData ! i)))],
               sharesOwned := 0, positionOpen := False,
               prevShortSMA := calculateSMA (currentPrices st @ [marketData ! i]) shortWindow,
               prevLongSMA := calculateSMA (currentPrices st @ [marketData ! i]) longWindow\<rparr>)"
      using sell by (intro iteration.sell) simp_all
    then show ?thesis using r unfolding loop_body_sell [OF sell] by simp
  next
    case hold
    have "iteration marketData shortWindow longWindow i st
           (st\<lparr>currentPrices := currentPrices st @ [marketData ! i],
               prevShortSMA := calculateSMA (currentPrices st @ [marketData ! i]) shortWindow,
               prevLongSMA := calculateSMA (currentPrices st @ [marketData ! i]) longWindow\<rparr>)"
      using hold by (intro iteration.hold) simp_all
    then show ?thesis using r unfolding loop_body_hold [OF hold] by simp
  qed
qed

lemma loop_reaches_after_days:
  "loop_reaches marketData shortWindow longWindow i st
     \<longleftrightarrow> i \<le> length marketData \<and> after_days marketData shortWindow longWindow i = Inr st"
proof
  assume "loop_reaches marketData shortWindow longWindow i st"
  then show "i \<le> length marketData \<and> after_days marketData shortWindow longWindow i = Inr st"
    by induction (auto simp: iteration_loop_body)
next
  assume "i \<le> length marketData \<and> after_days marketData shortWindow longWindow i = Inr st"
  then show "loop_reaches marketData shortWindow longWindow i st"
  proof (induction i arbitrary: st)
    case 0
    then show ?case by (auto intro: loop_reaches.start)
  next
    case (Suc i)
    then obtain s where s: "after_days marketData shortWindow longWindow i = Inr s"
      by (auto split: sum.splits)
    have lt: "i < length marketData" using Suc.prems by simp
    have "loop_reaches marketData shortWindow longWindow i s" using s lt by (intro Suc.IH) simp
    moreover have "iteration marketData shortWindow longWindow i s st"
      using Suc.prems s lt by (simp add: iteration_loop_body)
    ultimately show ?case using lt by (auto intro: loop_reaches.next_day)
  qed
qed

lemma run_result_runTradingSimulation:
  "run_result marketData shortWindow longWindow final
     \<longleftrightarrow> runTradingSimulation marketData shortWindow longWindow = Inr final"
proof
  assume "run_result marketData shortWindow longWindow final"
  then show "runTradingSimulation marketData shortWindow longWindow = Inr final"
    by cases (auto simp: runTradingSimulation_def loop_reaches_after_days Let_def)
next
  assume r: "runTradingSimulation marketData shortWindow longWindow = Inr final"
  then obtain st where st: "after_days marketData shortWindow longWindow (length marketData) = Inr st"
    by (auto simp: runTradingSimulation_def split: sum.splits)
  then have l: "loop_reaches marketData shortWindow longWindow (length marketData) st"
    by (simp add: loop_reaches_after_days)
  show "run_result marketData shortWindow longWindow final"
  proof (cases "positionOpen st")
    case True
    then have ne: "marketData \<noteq> []" using r st by (auto simp: runTradingSimulation_def)
    have "run_result marketData shortWindow longWindow
           (st\<lparr>portfolioValue := dadd (portfolioValue st)
                   (dmul (double_of_int (sharesOwned st)) (last marketData)),
               printed := printed st @ [EndOfSimulation (sharesOwned st) (last marketData),
                  FinalValue (dadd (portfolioValue st)
                   (dmul (double_of_int (sharesOwned st)) (last marketData)))]\<rparr>)"
      using l True ne by (intro run_result.liquidated) simp_all
    then show ?thesis using r st True ne by (simp add: runTradingSimulation_def Let_def)
  next
    case False
    have "run_result marketData shortWindow longWindow
           (st\<lparr>printed := printed st @ [FinalValue (portfolioValue st)]\<rparr>)"
      using l False by (rule run_result.no_position)
    then show ?thesis using r st False by (simp add: runTradingSimulation_def)
  qed
qed

text \<open>
  Claim C9, the part that holds. Two executions of the simulation on the same price series
  with the same window lengths print the same events in the same order and end with the
  same portfolio value, whatever path each of them is assumed to have taken.
\<close>

theorem fixed_series_runs_agree:
  assumes "run_result marketData shortWindow longWindow a"
    and "run_result marketData shortWindow longWindow b"
  shows "printed a = printed b \<and> portfolioValue a = portfolioValue b"
proof -
  from assms(1) obtain s where s: "loop_reaches marketData shortWindow longWindow (length marketData) s"
    and a: "a = (if positionOpen s
      then s\<lparr>portfolioValue := dadd (portfolioValue s)
                   (dmul (double_of_int (sharesOwned s)) (last marketData)),
               printed := printed s @ [EndOfSimulation (sharesOwned s) (last marketData),
                  FinalValue (dadd (portfolioValue s)
                   (dmul (double_of_int (sharesOwned s)) (last marketData)))]\<rparr>
      else s\<lparr>printed := printed s @ [FinalValue (portfolioValue s)]\<rparr>)"
    by cases auto
  from assms(2) obtain t where t: "loop_reaches marketData shortWindow longWindow (length marketData) t"
    and b: "b = (if positionOpen t
      then t\<lparr>portfolioValue := dadd (portfolioValue t)
                   (dmul (double_of_int (sharesOwned t)) (last marketData)),
               printed := printed t @ [EndOfSimulation (sharesOwned t) (last marketData),
                  FinalValue (dadd (portfolioValue t)
                   (dmul (double_of_int (sharesOwned t)) (last marketData)))]\<rparr>
      else t\<lparr>printed := printed t @ [FinalValue (portfolioValue t)]\<rparr>)"
    by cases auto
  have "s = t" using s t by (rule loop_reaches_deterministic)
  then show ?thesis using a b by simp
qed

theorem fixed_series_runs_agree_witness:
  "run_result [Fin 1, Fin 2] 1 2
     \<lparr>currentPrices = [Fin 1, Fin 2], portfolioValue = Fin 10000, sharesOwned = 5000,
      positionOpen = True, prevShortSMA = Fin 2, prevLongSMA = Fin (3 / 2),
      printed = [BuySignal 2 (Fin 2) 5000, EndOfSimulation 5000 (Fin 2),
                 FinalValue (Fin 10000)]\<rparr>
   \<and> run_result [Fin 1, Fin 2] 1 2
     (initial_state\<lparr>currentPrices := [Fin 1, Fin 2], sharesOwned := 5000,
        positionOpen := True, prevShortSMA := Fin 2, prevLongSMA := Fin (3 / 2),
        portfolioValue := Fin 10000,
        printed := [BuySignal 2 (Fin 2) 5000] @ [EndOfSimulation 5000 (Fin 2),
                 FinalValue (Fin 10000)]\<rparr>)
   \<and> printed (initial_state\<lparr>currentPrices := [Fin 1, Fin 2], sharesOwned := 5000,
        positionOpen := True, prevShortSMA := Fin 2, prevLongSMA := Fin (3 / 2),
        portfolioValue := Fin 10000,
        printed := [BuySignal 2 (Fin 2) 5000] @ [EndOfSimulation 5000 (Fin 2),
                 FinalValue (Fin 10000)]\<rparr>)
     = [BuySignal 2 (Fin 2) 5000, EndOfSimulation 5000 (Fin 2), FinalValue (Fin 10000)]
   \<and> portfolioValue (initial_state\<lparr>currentPrices := [Fin 1, Fin 2], sharesOwned := 5000,
        positionOpen := True, prevShortSMA := Fin 2, prevLongSMA := Fin (3 / 2),
        portfolioValue := Fin 10000,
        printed := [BuySignal 2 (Fin 2) 5000] @ [EndOfSimulation 5000 (Fin 2),
                 FinalValue (Fin 10000)]\<rparr>) = Fin 10000"
proof -
  let ?a = "\<lparr>currentPrices = [Fin 1, Fin 2], portfolioValue = Fin 10000, sharesOwned = 5000,
      positionOpen = True, prevShortSMA = Fin 2, prevLongSMA = Fin (3 / 2),
      printed = [BuySignal 2 (Fin 2) 5000, EndOfSimulation 5000 (Fin 2),
                 FinalValue (Fin 10000)]\<rparr>"
  let ?b = "initial_state\<lparr>currentPrices := [Fin 1, Fin 2], sharesOwned := 5000,
        positionOpen := True, prevShortSMA := Fin 2, prevLongSMA := Fin (3 / 2),
        portfolioValue := Fin 10000,
        printed := [BuySignal 2 (Fin 2) 5000] @ [EndOfSimulation 5000 (Fin 2),
                 FinalValue (Fin 10000)]\<rparr>"
  have r: "runTradingSimulation [Fin 1, Fin 2] 1 2 = Inr ?a" by code_simp
  have a: "run_result [Fin 1, Fin 2] 1 2 ?a"
    using r by (simp only: run_result_runTradingSimulation)
  have e: "?b = ?a" by (simp add: initial_state_def)
  have b: "run_result [Fin 1, Fin 2] 1 2 ?b" by (subst e) (rule a)
  have p: "printed ?a = [BuySignal 2 (Fin 2) 5000, EndOfSimulation 5000 (Fin 2),
      FinalValue (Fin 10000)]" "portfolioValue ?a = Fin 10000" by simp_all
  from fixed_series_runs_agree [OF b a] have "printed ?b = printed ?a"
    "portfolioValue ?b = portfolioValue ?a" by blast+
  with a b show ?thesis by (simp only: p)
qed

text \<open>
  The other part of the claim, that two runs of the same random-walk configuration generate
  the same prices, does not hold. \<^verbatim>\<open>main\<close> takes no seed and no other input: it seeds the
  generator from \<^verbatim>\<open>std::random_device\<close>, so the values drawn belong to the run. A run
  that draws 0.0 every day and a run that draws 1.0 every day start from the same constants
  and generate different prices, from the first day on.
\<close>

theorem unseeded_runs_differ:
  "market_data flat_draws ! 0 = Fin 100 \<and> market_data unit_draws ! 0 = Fin 101
   \<and> market_data flat_draws \<noteq> market_data unit_draws"
proof -
  have u: "[0..<200] = 0 # [1..<200]" by (simp add: upt_conv_Cons)
  have f: "fl 100 = Fin 100" "fl 101 = Fin 101" by code_simp+
  have a: "market_data flat_draws ! 0 = Fin 100"
    unfolding market_data_def u by (simp add: flat_draws_def Let_def f)
  have b: "market_data unit_draws ! 0 = Fin 101"
    unfolding market_data_def u by (simp add: unit_draws_def Let_def f)
  from a b show ?thesis by auto
qed

section \<open>C10: trades and marked-to-market value\<close>

text \<open>
  What the trades conserve, with \<open>cash + sharesOwned * p\<close> computed in \<^verbatim>\<open>double\<close>
  arithmetic at a finite price \<open>p\<close>: a SELL leaves the quantity unchanged; a BUY leaves it
  unchanged when the cash is below \<open>2^1023\<close> in magnitude (the cost then rounds to within a
  factor 2 of the cash and the subtraction is exact); the liquidation sets the final cash
  to the quantity as it was before.
\<close>

lemma buy_sell_conserve_value:
  assumes "i < length marketData"
    and "after_days marketData shortWindow longWindow i = Inr st"
    and "after_days marketData shortWindow longWindow (Suc i) = Inr st'"
    and "marketData ! i = Fin p"
  shows "((\<exists>n v. printed st' = printed st @ [SellSignal (Suc i) (Fin p) n v]) \<longrightarrow>
            mark_to_market st' (Fin p) = mark_to_market st (Fin p))
       \<and> ((\<exists>n. printed st' = printed st @ [BuySignal (Suc i) (Fin p) n])
            \<and> (\<exists>c. portfolioValue st = Fin c \<and> \<bar>c\<bar> < 2 powi 1023) \<longrightarrow>
            mark_to_market st' (Fin p) = mark_to_market st (Fin p))
       \<and> (Suc i = length marketData \<and> positionOpen st' \<longrightarrow>
            (\<exists>final. runTradingSimulation marketData shortWindow longWindow = Inr final
               \<and> portfolioValue final = mark_to_market st' (Fin p)))"
proof -
  note inv = after_days_invariant [OF assms(2)]
  have step: "loop_body marketData shortWindow longWindow i st = Inr st'"
    using assms(1-3) by simp
  have z: "double_of_int 0 = Fin 0" by (simp add: double_of_int_def)
  have liq: "Suc i = length marketData \<and> positionOpen st' \<longrightarrow>
            (\<exists>final. runTradingSimulation marketData shortWindow longWindow = Inr final
               \<and> portfolioValue final = mark_to_market st' (Fin p))"
  proof (intro impI, elim conjE)
    assume l: "Suc i = length marketData" and o: "positionOpen st'"
    have ne: "marketData \<noteq> []" using assms(1) by auto
    have "last marketData = marketData ! i"
      using ne by (simp add: last_conv_nth l [symmetric])
    then have la: "last marketData = Fin p" using assms(4) by simp
    show "\<exists>final. runTradingSimulation marketData shortWindow longWindow = Inr final
               \<and> portfolioValue final = mark_to_market st' (Fin p)"
      using assms(3) o ne
      by (simp add: runTradingSimulation_def l [symmetric] la mark_to_market_def Let_def
               del: after_days.simps)
  qed
  have trade: "((\<exists>n v. printed st' = printed st @ [SellSignal (Suc i) (Fin p) n v]) \<longrightarrow>
            mark_to_market st' (Fin p) = mark_to_market st (Fin p))
       \<and> ((\<exists>n. printed st' = printed st @ [BuySignal (Suc i) (Fin p) n])
            \<and> (\<exists>c. portfolioValue st = Fin c \<and> \<bar>c\<bar> < 2 powi 1023) \<longrightarrow>
            mark_to_market st' (Fin p) = mark_to_market st (Fin p))"
  proof (cases rule: loop_body_cases [where st = st and longWindow = longWindow
        and marketData = marketData and i = i and shortWindow = shortWindow])
    case warmup
    then show ?thesis using step by (auto simp: loop_body_warmup)
  next
    case hold
    show ?thesis using step unfolding loop_body_hold [OF hold] by auto
  next
    case sell
    have "is_value (dadd (portfolioValue st)
            (dmul (double_of_int (sharesOwned st)) (Fin p)))" by simp
    then have "dadd (dadd (portfolioValue st) (dmul (double_of_int (sharesOwned st)) (Fin p)))
                 (Fin 0)
               = dadd (portfolioValue st) (dmul (double_of_int (sharesOwned st)) (Fin p))"
      by (rule dadd_zero)
    then show ?thesis
      using step unfolding loop_body_sell [OF sell]
      by (auto simp: mark_to_market_def assms(4) z)
  next
    case buy
    have s0: "sharesOwned st = 0" using inv buy(4) by simp
    show ?thesis
    proof (intro conjI impI)
      assume "\<exists>n v. printed st' = printed st @ [SellSignal (Suc i) (Fin p) n v]"
      then show "mark_to_market st' (Fin p) = mark_to_market st (Fin p)"
        using step unfolding loop_body_buy [OF buy] by (auto split: option.splits)
    next
      assume "(\<exists>n. printed st' = printed st @ [BuySignal (Suc i) (Fin p) n])
            \<and> (\<exists>c. portfolioValue st = Fin c \<and> \<bar>c\<bar> < 2 powi 1023)"
      then obtain c where c: "portfolioValue st = Fin c" "\<bar>c\<bar> < 2 powi 1023" by blast
      have fc: "fl c = Fin c" using inv c(1) by simp
      from step obtain n where n: "int_of_double (ddiv (Fin c) (Fin p)) = Some n"
        and st': "sharesOwned st' = n"
          "portfolioValue st' = dsub (Fin c) (dmul (double_of_int n) (Fin p))"
        unfolding loop_body_buy [OF buy] by (auto simp: c(1) assms(4) split: option.splits)
      have "mark_to_market st' (Fin p) = Fin c"
        unfolding mark_to_market_def st' by (rule buy_conserves [OF fc c(2) n])
      moreover have "mark_to_market st (Fin p) = Fin c"
        using fc by (simp add: mark_to_market_def s0 z c(1))
      ultimately show "mark_to_market st' (Fin p) = mark_to_market st (Fin p)" by simp
    qed
  qed
  from trade liq show ?thesis by blast
qed

text \<open>
  Claim C10: every BUY, SELL and end-of-run liquidation executed at a price \<open>p\<close> leaves
  \<open>cash + sharesOwned * p\<close> as it was. The liquidation does not. On the series 1.0, 2.0
  with windows 1 and 2 the program buys 5000 shares at 2.0 on day 2 and liquidates them at
  2.0 after the loop. The liquidation adds the sale value to the cash and leaves
  \<open>sharesOwned\<close> at 5000 and \<open>positionOpen\<close> set, where the SELL branch resets both: computed
  from the variables, the quantity is 10000 before the liquidation and 20000 after it.
\<close>

theorem liquidation_keeps_share_count:
  "after_days [Fin 1, Fin 2] 1 2 2 =
     Inr \<lparr>currentPrices = [Fin 1, Fin 2], portfolioValue = Fin 0, sharesOwned = 5000,
          positionOpen = True, prevShortSMA = Fin 2, prevLongSMA = Fin (3 / 2),
          printed = [BuySignal 2 (Fin 2) 5000]\<rparr>
   \<and> runTradingSimulation [Fin 1, Fin 2] 1 2 =
     Inr \<lparr>currentPrices = [Fin 1, Fin 2], portfolioValue = Fin 10000, sharesOwned = 5000,
          positionOpen = True, prevShortSMA = Fin 2, prevLongSMA = Fin (3 / 2),
          printed = [BuySignal 2 (Fin 2) 5000, EndOfSimulation 5000 (Fin 2),
                     FinalValue (Fin 10000)]\<rparr>
   \<and> mark_to_market
       \<lparr>currentPrices = [Fin 1, Fin 2], portfolioValue = Fin 0, sharesOwned = 5000,
        positionOpen = True, prevShortSMA = Fin 2, prevLongSMA = Fin (3 / 2),
        printed = [BuySignal 2 (Fin 2) 5000]\<rparr> (Fin 2) = Fin 10000
   \<and> mark_to_market
       \<lparr>currentPrices = [Fin 1, Fin 2], portfolioValue = Fin 10000, sharesOwned = 5000,
        positionOpen = True, prevShortSMA = Fin 2, prevLongSMA = Fin (3 / 2),
        printed = [BuySignal 2 (Fin 2) 5000, EndOfSimulation 5000 (Fin 2),
                   FinalValue (Fin 10000)]\<rparr> (Fin 2) = Fin 20000"
proof -
  have a: "after_days [Fin 1, Fin 2] 1 2 2 =
     Inr \<lparr>currentPrices = [Fin 1, Fin 2], portfolioValue = Fin 0, sharesOwned = 5000,
          positionOpen = True, prevShortSMA = Fin 2, prevLongSMA = Fin (3 / 2),
          printed = [BuySignal 2 (Fin 2) 5000]\<rparr>" by code_simp
  have b: "runTradingSimulation [Fin 1, Fin 2] 1 2 =
     Inr \<lparr>currentPrices = [Fin 1, Fin 2], portfolioValue = Fin 10000, sharesOwned = 5000,
          positionOpen = True, prevShortSMA = Fin 2, prevLongSMA = Fin (3 / 2),
          printed = [BuySignal 2 (Fin 2) 5000, EndOfSimulation 5000 (Fin 2),
                     FinalValue (Fin 10000)]\<rparr>" by code_simp
  have c: "dadd (Fin 0) (dmul (double_of_int 5000) (Fin 2)) = Fin 10000" by code_simp
  have d: "dadd (Fin 10000) (dmul (double_of_int 5000) (Fin 2)) = Fin 20000" by code_simp
  show ?thesis
    unfolding mark_to_market_def using a b c d by simp
qed

end
